theory Spec2Isabelle
  imports Main "HOL-Library.Word" "HOL-Library.Signed_Division"
begin

unbundle bit_operations_syntax

section \<open>Failures as values\<close>

text \<open>
  A failed assertion aborts the compilation of the block. Every \<open>ASSERT\<close> of the sources
  is a branch returning \<open>Inl\<close> of the failure; a function that completes returns \<open>Inr\<close>.
\<close>

datatype failure =
    BadArgIndex                 \<comment> \<open>\<open>GetArg\<close>/\<open>SetArg\<close> beyond the operands of the instruction\<close>
  | NotAnImmediate              \<comment> \<open>an immediate accessor on a value that holds none\<close>
  | NotAnInst                   \<comment> \<open>\<open>GetInst\<close> on a value that references no instruction of the block\<close>
  | DivisionOverflow            \<comment> \<open>\<open>s64\<close> quotient of the least value by minus one\<close>
  | ThisShouldNeverHappen       \<comment> \<open>"This should never happen."\<close>
  | EmitMoveTODO                \<comment> \<open>"TODO": a move between a GPR and an XMM register\<close>
  | InvalidEmitMove             \<comment> \<open>"Invalid RegAlloc::EmitMove"\<close>
  | ExchangingXMM               \<comment> \<open>"Check your code: Exchanging XMM registers is unnecessary"\<close>
  | InvalidEmitExchange         \<comment> \<open>"Invalid RegAlloc::EmitExchange"\<close>
  | DefAlreadyDefined           \<comment> \<open>"def_inst has already been defined"\<close>
  | UseNotDefined               \<comment> \<open>"use_inst must already be defined" / "use_inst has not been defined"\<close>
  | UseOpArgImmediate           \<comment> \<open>"UseOpArg does not support immediates"\<close>
  | RanOutOfUses                \<comment> \<open>"use_inst ran out of uses. (Use-d an IR::Inst* too many times)"\<close>
  | InvalidCurrentLocation      \<comment> \<open>"Invalid current_location"\<close>
  | AllCandidatesAllocated      \<comment> \<open>"All candidate registers have already been allocated"\<close>
  | OnlyRegistersCanBeSpilled   \<comment> \<open>"Only registers can be spilled"\<close>
  | NoNeedToSpill               \<comment> \<open>"There is no need to spill unoccupied registers"\<close>
  | AllocatedMustNotBeSpilt     \<comment> \<open>"Registers that have been allocated must not be spilt"\<close>
  | AllSpillsFull               \<comment> \<open>"All spill locations are full"\<close>
  | Bad                         \<comment> \<open>"bad"\<close>
  | ImmIsNotAnImmediate         \<comment> \<open>"imm is not an immediate"\<close>
  | AssertionFailed             \<comment> \<open>an \<open>ASSERT\<close> or \<open>DEBUG_ASSERT\<close> without a message\<close>
  | NoRemainingUses             \<comment> \<open>a use count decremented below zero\<close>
  | NoValueLocation             \<comment> \<open>\<open>*ValueLocation(inst)\<close> where the optional is \<open>boost::none\<close>\<close>
  | EraseAtEnd                  \<comment> \<open>\<open>ret.erase(ret.end())\<close>\<close>

definition bind :: "'x + 'a \<Rightarrow> ('a \<Rightarrow> 'x + 'b) \<Rightarrow> 'x + 'b" where
  \<comment> \<open>the statements that follow a call run only if the call completes\<close>
  "bind m rest = (case m of Inr v \<Rightarrow> rest v | Inl failed \<Rightarrow> Inl failed)"

definition ASSERT :: "bool \<Rightarrow> 'x \<Rightarrow> 'x + unit" where
  "ASSERT c e = (if c then Inr () else Inl e)"

section \<open>The IR: values, instructions, blocks\<close>

text \<open>
  Modelled from the spec: \<open>IR::Value\<close>, \<open>IR::Inst\<close> and \<open>IR::Block\<close> (frontend/ir is not
  among the sources). A value is an immediate of one of the primitive widths, a reference
  to an instruction, or empty. The spec lists the widths 1, 8, 32 and 64; the folders of the
  pass also build 16-bit immediates (\<open>IR::Value{u16}\<close>), so \<open>U16\<close> is a width too. The
  instructions of a block live in one arena, and a reference is an index into it. The
  empty value is no reference: \<open>IsImmediate\<close> holds of it and its immediate accessors fail.
  \<open>ReplaceUsesWith\<close> rewrites the operands of the block; the number of uses of an
  instruction is the number of operands that refer to it (\<open>UseCount\<close>).
\<close>

datatype Value =
    Empty
  | InstRef nat
  | U1 bool
  | U8 "8 word"
  | U16 "16 word"
  | U32 "32 word"
  | U64 "64 word"

datatype Opcode =
    Void
  | GetCarryFromOp
  | LeastSignificantWord | MostSignificantWord | LeastSignificantHalf
  | LeastSignificantByte | MostSignificantBit
  | LogicalShiftLeft32 | LogicalShiftLeft64
  | LogicalShiftRight32 | LogicalShiftRight64
  | ArithmeticShiftRight32 | ArithmeticShiftRight64
  | RotateRight32 | RotateRight64
  | Mul32 | Mul64
  | SignedDiv32 | SignedDiv64 | UnsignedDiv32 | UnsignedDiv64
  | And32 | And64 | Eor32 | Eor64 | Or32 | Or64 | Not32 | Not64
  | SignExtendByteToWord | SignExtendHalfToWord
  | SignExtendByteToLong | SignExtendHalfToLong | SignExtendWordToLong
  | ZeroExtendByteToWord | ZeroExtendHalfToWord
  | ZeroExtendByteToLong | ZeroExtendHalfToLong | ZeroExtendWordToLong
  | ByteReverseWord | ByteReverseHalf | ByteReverseDual
  | OtherOpcode nat  \<comment> \<open>every opcode the pass does not dispatch on\<close>

record Inst =
  opcode :: Opcode
  args :: "Value list"
  pseudo_ops :: "(Opcode \<times> nat) list"
    \<comment> \<open>the associated pseudo-operations: opcode tag and arena index\<close>

type_synonym Block = "Inst list"

fun IsImmediate :: "Value \<Rightarrow> bool" where
  "IsImmediate (InstRef _) = False"
| "IsImmediate _ = True"

fun IsEmpty :: "Value \<Rightarrow> bool" where
  "IsEmpty Empty = True"
| "IsEmpty _ = False"

text \<open>The immediate widened to 64 bits, unsigned and signed.\<close>

fun GetImmediateAsU64 :: "Value \<Rightarrow> failure + 64 word" where
  "GetImmediateAsU64 (U1 b) = Inr (if b then 1 else 0)"
| "GetImmediateAsU64 (U8 w) = Inr (ucast w)"
| "GetImmediateAsU64 (U16 w) = Inr (ucast w)"
| "GetImmediateAsU64 (U32 w) = Inr (ucast w)"
| "GetImmediateAsU64 (U64 w) = Inr w"
| "GetImmediateAsU64 _ = Inl NotAnImmediate"

fun GetImmediateAsS64 :: "Value \<Rightarrow> failure + 64 word" where
  "GetImmediateAsS64 (U1 b) = Inr (if b then 1 else 0)"
| "GetImmediateAsS64 (U8 w) = Inr (scast w)"
| "GetImmediateAsS64 (U16 w) = Inr (scast w)"
| "GetImmediateAsS64 (U32 w) = Inr (scast w)"
| "GetImmediateAsS64 (U64 w) = Inr w"
| "GetImmediateAsS64 _ = Inl NotAnImmediate"

definition IsUnsignedImmediate :: "Value \<Rightarrow> 64 word \<Rightarrow> bool" where
  "IsUnsignedImmediate v n = (IsImmediate v \<and> GetImmediateAsU64 v = Inr n)"

definition IsZero :: "Value \<Rightarrow> bool" where
  "IsZero v = IsUnsignedImmediate v 0"

fun HasAllBitsSet :: "Value \<Rightarrow> bool" where
  "HasAllBitsSet (U1 b) = b"
| "HasAllBitsSet (U8 w) = (w = - 1)"
| "HasAllBitsSet (U16 w) = (w = - 1)"
| "HasAllBitsSet (U32 w) = (w = - 1)"
| "HasAllBitsSet (U64 w) = (w = - 1)"
| "HasAllBitsSet _ = False"

definition NumArgs :: "Inst \<Rightarrow> nat" where
  "NumArgs inst = length (args inst)"

definition GetArg :: "Inst \<Rightarrow> nat \<Rightarrow> failure + Value" where
  "GetArg inst n = (if n < length (args inst) then Inr (args inst ! n) else Inl BadArgIndex)"

definition AreAllArgsImmediates :: "Inst \<Rightarrow> bool" where
  "AreAllArgsImmediates inst = list_all IsImmediate (args inst)"

definition GetAssociatedPseudoOperation :: "Inst \<Rightarrow> Opcode \<Rightarrow> nat option" where
  "GetAssociatedPseudoOperation inst op = map_of (pseudo_ops inst) op"

text \<open>\<open>inst.SetArg(n, v)\<close> on the instruction at index \<open>i\<close> of the block.\<close>

definition SetArg :: "Block \<Rightarrow> nat \<Rightarrow> nat \<Rightarrow> Value \<Rightarrow> failure + Block" where
  "SetArg b i n v =
     (if n < length (args (b ! i))
      then Inr (b[i := (b ! i)\<lparr>args := (args (b ! i))[n := v]\<rparr>])
      else Inl BadArgIndex)"

text \<open>
  \<open>inst.ReplaceUsesWith(v)\<close> on the instruction at index \<open>i\<close>: every use of the
  instruction in the block now refers to \<open>v\<close>.
\<close>

definition subst_use :: "nat \<Rightarrow> Value \<Rightarrow> Value \<Rightarrow> Value" where
  "subst_use i v a = (if a = InstRef i then v else a)"

definition Inst_ReplaceUsesWith :: "Block \<Rightarrow> nat \<Rightarrow> Value \<Rightarrow> Block" where
  "Inst_ReplaceUsesWith b i v = map (\<lambda>inst. inst\<lparr>args := map (subst_use i v) (args inst)\<rparr>) b"

text \<open>\<open>v.GetInstRecursive()\<close>: the instruction a value refers to.\<close>

fun GetInstRecursive :: "Block \<Rightarrow> Value \<Rightarrow> failure + Inst" where
  "GetInstRecursive b (InstRef r) = (if r < length b then Inr (b ! r) else Inl NotAnInst)"
| "GetInstRecursive b _ = Inl NotAnInst"

text \<open>The number of operands in the block that refer to instruction \<open>i\<close>.\<close>

definition UseCount :: "Block \<Rightarrow> nat \<Rightarrow> nat" where
  "UseCount b i = sum_list (map (\<lambda>inst. count_list (args inst) (InstRef i)) b)"

text \<open>
  Modelled from the spec: the byte swaps of common/bit_util.h (not among the sources).
\<close>

definition Swap16 :: "16 word \<Rightarrow> 16 word" where
  "Swap16 w = push_bit 8 w OR drop_bit 8 w"

definition Swap32 :: "32 word \<Rightarrow> 32 word" where
  "Swap32 w = push_bit 24 w OR push_bit 8 (w AND 0xFF00)
              OR (drop_bit 8 w AND 0xFF00) OR drop_bit 24 w"

definition Swap64 :: "64 word \<Rightarrow> 64 word" where
  "Swap64 w = push_bit 32 (ucast (Swap32 (ucast w))) OR ucast (Swap32 (ucast (drop_bit 32 w)))"

section \<open>The constant-propagation pass (ir\_opt/constant\_propagation\_pass.cpp)\<close>

definition ReplaceUsesWith :: "Block \<Rightarrow> nat \<Rightarrow> bool \<Rightarrow> 64 word \<Rightarrow> Block" where
  "ReplaceUsesWith b i is_32_bit val =
     (if is_32_bit then Inst_ReplaceUsesWith b i (U32 (ucast val))
      else Inst_ReplaceUsesWith b i (U64 val))"

definition ValueOf :: "bool \<Rightarrow> 64 word \<Rightarrow> Value" where
  \<comment> \<open>the helper \<open>Value(is_32_bit, value)\<close>\<close>
  "ValueOf is_32_bit val = (if is_32_bit then U32 (ucast val) else U64 val)"

definition FoldCommutative ::
  "Block \<Rightarrow> nat \<Rightarrow> bool \<Rightarrow> (64 word \<Rightarrow> 64 word \<Rightarrow> 64 word) \<Rightarrow> failure + (bool \<times> Block)" where
  "FoldCommutative b i is_32_bit imm_fn =
     bind (GetArg (b ! i) 0) (\<lambda>lhs.
     bind (GetArg (b ! i) 1) (\<lambda>rhs.
       let is_lhs_immediate = IsImmediate lhs;
           is_rhs_immediate = IsImmediate rhs
       in
       if is_lhs_immediate \<and> is_rhs_immediate then
         bind (GetImmediateAsU64 lhs) (\<lambda>x.
         bind (GetImmediateAsU64 rhs) (\<lambda>y.
           Inr (False, ReplaceUsesWith b i is_32_bit (imm_fn x y))))
       else
         bind
           (if is_lhs_immediate \<and> \<not> is_rhs_immediate then
              bind (GetInstRecursive b rhs) (\<lambda>rhs_inst.
              bind (if opcode rhs_inst = opcode (b ! i)
                    then bind (GetArg rhs_inst 1) (\<lambda>r1. Inr (IsImmediate r1))
                    else Inr False) (\<lambda>fuse.
                if fuse then
                  bind (GetImmediateAsU64 lhs) (\<lambda>x.
                  bind (GetArg rhs_inst 1) (\<lambda>r1.
                  bind (GetImmediateAsU64 r1) (\<lambda>y.
                  bind (GetArg rhs_inst 0) (\<lambda>r0.
                  bind (SetArg b i 0 r0) (\<lambda>b1.
                    SetArg b1 i 1 (ValueOf is_32_bit (imm_fn x y)))))))
                else
                  bind (SetArg b i 0 rhs) (\<lambda>b1. SetArg b1 i 1 lhs)))
            else Inr b) (\<lambda>b2.
         bind
           (if \<not> is_lhs_immediate \<and> is_rhs_immediate then
              bind (GetInstRecursive b2 lhs) (\<lambda>lhs_inst.
              bind (if opcode lhs_inst = opcode (b2 ! i)
                    then bind (GetArg lhs_inst 1) (\<lambda>l1. Inr (IsImmediate l1))
                    else Inr False) (\<lambda>fuse.
                if fuse then
                  bind (GetImmediateAsU64 rhs) (\<lambda>x.
                  bind (GetArg lhs_inst 1) (\<lambda>l1.
                  bind (GetImmediateAsU64 l1) (\<lambda>y.
                  bind (GetArg lhs_inst 0) (\<lambda>l0.
                  bind (SetArg b2 i 0 l0) (\<lambda>b3.
                    SetArg b3 i 1 (ValueOf is_32_bit (imm_fn x y)))))))
                else Inr b2))
            else Inr b2) (\<lambda>b4. Inr (True, b4)))))"

definition FoldAND :: "Block \<Rightarrow> nat \<Rightarrow> bool \<Rightarrow> failure + Block" where
  "FoldAND b i is_32_bit =
     bind (FoldCommutative b i is_32_bit (\<lambda>x y. x AND y)) (\<lambda>(continue, b1).
       if continue then
         bind (GetArg (b1 ! i) 1) (\<lambda>rhs.
           if IsZero rhs then Inr (ReplaceUsesWith b1 i is_32_bit 0)
           else if HasAllBitsSet rhs then
             bind (GetArg (b1 ! i) 0) (\<lambda>a0. Inr (Inst_ReplaceUsesWith b1 i a0))
           else Inr b1)
       else Inr b1)"

definition FoldByteReverse :: "Block \<Rightarrow> nat \<Rightarrow> Opcode \<Rightarrow> failure + Block" where
  "FoldByteReverse b i op =
     bind (GetArg (b ! i) 0) (\<lambda>operand.
       if \<not> IsImmediate operand then Inr b
       else
         bind (GetImmediateAsU64 operand) (\<lambda>x.
           if op = ByteReverseWord then Inr (Inst_ReplaceUsesWith b i (U32 (Swap32 (ucast x))))
           else if op = ByteReverseHalf then Inr (Inst_ReplaceUsesWith b i (U16 (Swap16 (ucast x))))
           else Inr (Inst_ReplaceUsesWith b i (U64 (Swap64 x)))))"

text \<open>
  \<open>s64 / s64\<close> truncates towards zero; the quotient of the least \<open>s64\<close> by \<open>-1\<close> is not
  representable and the division is undefined there.
\<close>

definition s64_div :: "64 word \<Rightarrow> 64 word \<Rightarrow> failure + 64 word" where
  "s64_div x y =
     (if sint x = - (2 ^ 63) \<and> sint y = - 1 then Inl DivisionOverflow
      else Inr (word_of_int (sint x sdiv sint y)))"

definition FoldDivide :: "Block \<Rightarrow> nat \<Rightarrow> bool \<Rightarrow> bool \<Rightarrow> failure + Block" where
  "FoldDivide b i is_32_bit is_signed =
     bind (GetArg (b ! i) 1) (\<lambda>rhs.
       if IsZero rhs then Inr (ReplaceUsesWith b i is_32_bit 0)
       else
         bind (GetArg (b ! i) 0) (\<lambda>lhs.
           if IsImmediate lhs \<and> IsImmediate rhs then
             (if is_signed then
                bind (GetImmediateAsS64 lhs) (\<lambda>x.
                bind (GetImmediateAsS64 rhs) (\<lambda>y.
                bind (s64_div x y) (\<lambda>result.
                  Inr (ReplaceUsesWith b i is_32_bit result))))
              else
                bind (GetImmediateAsU64 lhs) (\<lambda>x.
                bind (GetImmediateAsU64 rhs) (\<lambda>y.
                  Inr (ReplaceUsesWith b i is_32_bit (x div y)))))
           else if IsUnsignedImmediate rhs 1 then Inr (Inst_ReplaceUsesWith b i lhs)
           else Inr b))"

definition FoldEOR :: "Block \<Rightarrow> nat \<Rightarrow> bool \<Rightarrow> failure + Block" where
  "FoldEOR b i is_32_bit =
     bind (FoldCommutative b i is_32_bit (\<lambda>x y. x XOR y)) (\<lambda>(continue, b1).
       if continue then
         bind (GetArg (b1 ! i) 1) (\<lambda>rhs.
           if IsZero rhs then
             bind (GetArg (b1 ! i) 0) (\<lambda>a0. Inr (Inst_ReplaceUsesWith b1 i a0))
           else Inr b1)
       else Inr b1)"

definition FoldLeastSignificantByte :: "Block \<Rightarrow> nat \<Rightarrow> failure + Block" where
  "FoldLeastSignificantByte b i =
     (if \<not> AreAllArgsImmediates (b ! i) then Inr b
      else
        bind (GetArg (b ! i) 0) (\<lambda>operand.
        bind (GetImmediateAsU64 operand) (\<lambda>x.
          Inr (Inst_ReplaceUsesWith b i (U8 (ucast x))))))"

definition FoldLeastSignificantHalf :: "Block \<Rightarrow> nat \<Rightarrow> failure + Block" where
  "FoldLeastSignificantHalf b i =
     (if \<not> AreAllArgsImmediates (b ! i) then Inr b
      else
        bind (GetArg (b ! i) 0) (\<lambda>operand.
        bind (GetImmediateAsU64 operand) (\<lambda>x.
          Inr (Inst_ReplaceUsesWith b i (U16 (ucast x))))))"

definition FoldLeastSignificantWord :: "Block \<Rightarrow> nat \<Rightarrow> failure + Block" where
  "FoldLeastSignificantWord b i =
     (if \<not> AreAllArgsImmediates (b ! i) then Inr b
      else
        bind (GetArg (b ! i) 0) (\<lambda>operand.
        bind (GetImmediateAsU64 operand) (\<lambda>x.
          Inr (Inst_ReplaceUsesWith b i (U32 (ucast x))))))"

definition FoldMostSignificantBit :: "Block \<Rightarrow> nat \<Rightarrow> failure + Block" where
  "FoldMostSignificantBit b i =
     (if \<not> AreAllArgsImmediates (b ! i) then Inr b
      else
        bind (GetArg (b ! i) 0) (\<lambda>operand.
        bind (GetImmediateAsU64 operand) (\<lambda>x.
          Inr (Inst_ReplaceUsesWith b i (U1 (drop_bit 31 x \<noteq> 0))))))"

definition FoldMostSignificantWord :: "Block \<Rightarrow> nat \<Rightarrow> failure + Block" where
  "FoldMostSignificantWord b i =
     (let carry_inst = GetAssociatedPseudoOperation (b ! i) GetCarryFromOp in
      if \<not> AreAllArgsImmediates (b ! i) then Inr b
      else
        bind (GetArg (b ! i) 0) (\<lambda>operand.
        bind (GetImmediateAsU64 operand) (\<lambda>x.
          let b1 = (case carry_inst of
                      Some c \<Rightarrow> Inst_ReplaceUsesWith b c (U1 (bit x 31))
                    | None \<Rightarrow> b)
          in Inr (Inst_ReplaceUsesWith b1 i (U32 (ucast (drop_bit 32 x)))))))"

definition FoldMultiply :: "Block \<Rightarrow> nat \<Rightarrow> bool \<Rightarrow> failure + Block" where
  "FoldMultiply b i is_32_bit =
     bind (FoldCommutative b i is_32_bit (\<lambda>x y. x * y)) (\<lambda>(continue, b1).
       if continue then
         bind (GetArg (b1 ! i) 1) (\<lambda>rhs.
           if IsZero rhs then Inr (ReplaceUsesWith b1 i is_32_bit 0)
           else if IsUnsignedImmediate rhs 1 then
             bind (GetArg (b1 ! i) 0) (\<lambda>a0. Inr (Inst_ReplaceUsesWith b1 i a0))
           else Inr b1)
       else Inr b1)"

definition FoldNOT :: "Block \<Rightarrow> nat \<Rightarrow> bool \<Rightarrow> failure + Block" where
  "FoldNOT b i is_32_bit =
     bind (GetArg (b ! i) 0) (\<lambda>operand.
       if \<not> IsImmediate operand then Inr b
       else
         bind (GetImmediateAsU64 operand) (\<lambda>x.
           Inr (ReplaceUsesWith b i is_32_bit (NOT x))))"

definition FoldOR :: "Block \<Rightarrow> nat \<Rightarrow> bool \<Rightarrow> failure + Block" where
  "FoldOR b i is_32_bit =
     bind (FoldCommutative b i is_32_bit (\<lambda>x y. x OR y)) (\<lambda>(continue, b1).
       if continue then
         bind (GetArg (b1 ! i) 1) (\<lambda>rhs.
           if IsZero rhs then
             bind (GetArg (b1 ! i) 0) (\<lambda>a0. Inr (Inst_ReplaceUsesWith b1 i a0))
           else Inr b1)
       else Inr b1)"

definition FoldShifts :: "Block \<Rightarrow> nat \<Rightarrow> failure + Block" where
  "FoldShifts b i =
     (let carry_inst = GetAssociatedPseudoOperation (b ! i) GetCarryFromOp in
      bind (if NumArgs (b ! i) = 3 \<and> carry_inst = None
            then SetArg b i 2 (U1 False) else Inr b) (\<lambda>b1.
      bind (GetArg (b1 ! i) 1) (\<lambda>shift_amount.
        if \<not> IsZero shift_amount then Inr b1
        else
          bind (case carry_inst of
                  Some c \<Rightarrow> bind (GetArg (b1 ! i) 2) (\<lambda>a2. Inr (Inst_ReplaceUsesWith b1 c a2))
                | None \<Rightarrow> Inr b1) (\<lambda>b2.
          bind (GetArg (b2 ! i) 0) (\<lambda>a0.
            Inr (Inst_ReplaceUsesWith b2 i a0))))))"

definition FoldSignExtendXToWord :: "Block \<Rightarrow> nat \<Rightarrow> failure + Block" where
  "FoldSignExtendXToWord b i =
     (if \<not> AreAllArgsImmediates (b ! i) then Inr b
      else
        bind (GetArg (b ! i) 0) (\<lambda>operand.
        bind (GetImmediateAsS64 operand) (\<lambda>x.
          Inr (Inst_ReplaceUsesWith b i (U32 (ucast x))))))"

definition FoldSignExtendXToLong :: "Block \<Rightarrow> nat \<Rightarrow> failure + Block" where
  "FoldSignExtendXToLong b i =
     (if \<not> AreAllArgsImmediates (b ! i) then Inr b
      else
        bind (GetArg (b ! i) 0) (\<lambda>operand.
        bind (GetImmediateAsS64 operand) (\<lambda>x.
          Inr (Inst_ReplaceUsesWith b i (U64 x)))))"

definition FoldZeroExtendXToWord :: "Block \<Rightarrow> nat \<Rightarrow> failure + Block" where
  "FoldZeroExtendXToWord b i =
     (if \<not> AreAllArgsImmediates (b ! i) then Inr b
      else
        bind (GetArg (b ! i) 0) (\<lambda>operand.
        bind (GetImmediateAsU64 operand) (\<lambda>x.
          Inr (Inst_ReplaceUsesWith b i (U32 (ucast x))))))"

definition FoldZeroExtendXToLong :: "Block \<Rightarrow> nat \<Rightarrow> failure + Block" where
  "FoldZeroExtendXToLong b i =
     (if \<not> AreAllArgsImmediates (b ! i) then Inr b
      else
        bind (GetArg (b ! i) 0) (\<lambda>operand.
        bind (GetImmediateAsU64 operand) (\<lambda>x.
          Inr (Inst_ReplaceUsesWith b i (U64 x)))))"

text \<open>The body of the loop of \<open>ConstantPropagation\<close>: the dispatch on the opcode.\<close>

definition FoldInst :: "Block \<Rightarrow> nat \<Rightarrow> failure + Block" where
  "FoldInst b i =
     (let op = opcode (b ! i) in
      case op of
        LeastSignificantWord \<Rightarrow> FoldLeastSignificantWord b i
      | MostSignificantWord \<Rightarrow> FoldMostSignificantWord b i
      | LeastSignificantHalf \<Rightarrow> FoldLeastSignificantHalf b i
      | LeastSignificantByte \<Rightarrow> FoldLeastSignificantByte b i
      | MostSignificantBit \<Rightarrow> FoldMostSignificantBit b i
      | LogicalShiftLeft32 \<Rightarrow> FoldShifts b i
      | LogicalShiftLeft64 \<Rightarrow> FoldShifts b i
      | LogicalShiftRight32 \<Rightarrow> FoldShifts b i
      | LogicalShiftRight64 \<Rightarrow> FoldShifts b i
      | ArithmeticShiftRight32 \<Rightarrow> FoldShifts b i
      | ArithmeticShiftRight64 \<Rightarrow> FoldShifts b i
      | RotateRight32 \<Rightarrow> FoldShifts b i
      | RotateRight64 \<Rightarrow> FoldShifts b i
      | Mul32 \<Rightarrow> FoldMultiply b i (op = Mul32)
      | Mul64 \<Rightarrow> FoldMultiply b i (op = Mul32)
      | SignedDiv32 \<Rightarrow> FoldDivide b i (op = SignedDiv32) True
      | SignedDiv64 \<Rightarrow> FoldDivide b i (op = SignedDiv32) True
      | UnsignedDiv32 \<Rightarrow> FoldDivide b i (op = UnsignedDiv32) False
      | UnsignedDiv64 \<Rightarrow> FoldDivide b i (op = UnsignedDiv32) False
      | And32 \<Rightarrow> FoldAND b i (op = And32)
      | And64 \<Rightarrow> FoldAND b i (op = And32)
      | Eor32 \<Rightarrow> FoldEOR b i (op = Eor32)
      | Eor64 \<Rightarrow> FoldEOR b i (op = Eor32)
      | Or32 \<Rightarrow> FoldOR b i (op = Or32)
      | Or64 \<Rightarrow> FoldOR b i (op = Or32)
      | Not32 \<Rightarrow> FoldNOT b i (op = Not32)
      | Not64 \<Rightarrow> FoldNOT b i (op = Not32)
      | SignExtendByteToWord \<Rightarrow> FoldSignExtendXToWord b i
      | SignExtendHalfToWord \<Rightarrow> FoldSignExtendXToWord b i
      | SignExtendByteToLong \<Rightarrow> FoldSignExtendXToLong b i
      | SignExtendHalfToLong \<Rightarrow> FoldSignExtendXToLong b i
      | SignExtendWordToLong \<Rightarrow> FoldSignExtendXToLong b i
      | ZeroExtendByteToWord \<Rightarrow> FoldZeroExtendXToWord b i
      | ZeroExtendHalfToWord \<Rightarrow> FoldZeroExtendXToWord b i
      | ZeroExtendByteToLong \<Rightarrow> FoldZeroExtendXToLong b i
      | ZeroExtendHalfToLong \<Rightarrow> FoldZeroExtendXToLong b i
      | ZeroExtendWordToLong \<Rightarrow> FoldZeroExtendXToLong b i
      | ByteReverseWord \<Rightarrow> FoldByteReverse b i op
      | ByteReverseHalf \<Rightarrow> FoldByteReverse b i op
      | ByteReverseDual \<Rightarrow> FoldByteReverse b i op
      | _ \<Rightarrow> Inr b)"

text \<open>\<open>for (auto& inst : block)\<close>: the instructions in order, each on the block as the
  earlier ones left it.\<close>

fun FoldInsts :: "nat list \<Rightarrow> Block \<Rightarrow> failure + Block" where
  "FoldInsts [] b = Inr b"
| "FoldInsts (i # is) b = bind (FoldInst b i) (FoldInsts is)"

definition ConstantPropagation :: "Block \<Rightarrow> failure + Block" where
  "ConstantPropagation b = FoldInsts [0 ..< length b] b"

section \<open>What the folders are compared with, and example blocks\<close>

text \<open>
  The direct evaluation of a commutative operation, in the spec's words: AND, OR, XOR and
  MUL on words of the width at hand.
\<close>

definition direct_eval :: "Opcode \<Rightarrow> 'a::len word \<Rightarrow> 'a word \<Rightarrow> 'a word" where
  "direct_eval op x y =
     (if op \<in> {And32, And64} then x AND y
      else if op \<in> {Or32, Or64} then x OR y
      else if op \<in> {Eor32, Eor64} then x XOR y
      else x * y)"

definition div_example :: Block where
  "div_example =
     [\<lparr>opcode = OtherOpcode 0, args = [], pseudo_ops = []\<rparr>,
      \<lparr>opcode = UnsignedDiv32, args = [InstRef 0, U32 0], pseudo_ops = []\<rparr>,
      \<lparr>opcode = And32, args = [InstRef 1, InstRef 0], pseudo_ops = []\<rparr>]"

definition and_example :: Block where
  "and_example =
     [\<lparr>opcode = OtherOpcode 0, args = [], pseudo_ops = []\<rparr>,
      \<lparr>opcode = And32, args = [U32 0xF0, U32 0x3C], pseudo_ops = []\<rparr>,
      \<lparr>opcode = Or32, args = [InstRef 1, InstRef 0], pseudo_ops = []\<rparr>]"

definition shift_example :: Block where
  "shift_example =
     [\<lparr>opcode = OtherOpcode 0, args = [], pseudo_ops = []\<rparr>,
      \<lparr>opcode = OtherOpcode 1, args = [], pseudo_ops = []\<rparr>,
      \<lparr>opcode = LogicalShiftLeft32, args = [InstRef 0, U8 0, InstRef 1],
        pseudo_ops = [(GetCarryFromOp, 3)]\<rparr>,
      \<lparr>opcode = GetCarryFromOp, args = [InstRef 2], pseudo_ops = []\<rparr>,
      \<lparr>opcode = OtherOpcode 2, args = [InstRef 2, InstRef 3], pseudo_ops = []\<rparr>]"

section \<open>Blocks in SSA form\<close>

text \<open>
  In a block in SSA form an operand refers to an earlier instruction only, and a
  pseudo-operation comes after the instruction it is associated with. \<open>normalized\<close> is the
  shape the commutative folder leaves: an immediate in position 0 only beside an immediate
  in position 1. \<open>keeps\<close> and \<open>step_ok\<close> say what one step of the pass may change.
\<close>

fun older :: "nat \<Rightarrow> Value \<Rightarrow> bool" where
  "older k (InstRef r) = (r < k)"
| "older k _ = True"

definition wf_inst :: "nat \<Rightarrow> Inst \<Rightarrow> bool" where
  "wf_inst j inst =
     (list_all (older j) (args inst) \<and> list_all (\<lambda>(op, c). j < c) (pseudo_ops inst))"

definition wf_block :: "Block \<Rightarrow> bool" where
  "wf_block b = list_all (\<lambda>(j, inst). wf_inst j inst) (enumerate 0 b)"

definition normalized :: "Inst \<Rightarrow> bool" where
  "normalized inst =
     (1 < length (args inst) \<and> (IsImmediate (args inst ! 0) \<longrightarrow> IsImmediate (args inst ! 1)))"

definition keeps :: "nat \<Rightarrow> Block \<Rightarrow> Block \<Rightarrow> bool" where
  "keeps i b b' = (length b' = length b \<and> wf_block b' \<and> (\<forall>j \<le> i. j < length b \<longrightarrow> b' ! j = b ! j))"

definition step_ok :: "nat \<Rightarrow> Block \<Rightarrow> Block \<Rightarrow> bool" where
  "step_ok i b b' =
     (length b' = length b \<and> wf_block b' \<and> (\<forall>j < i. b' ! j = b ! j) \<and>
      opcode (b' ! i) = opcode (b ! i))"

definition is_commutative :: "Opcode \<Rightarrow> bool" where
  "is_commutative op = (op \<in> {And32, And64, Or32, Or64, Eor32, Eor64, Mul32, Mul64})"

definition norm_example :: Block where
  "norm_example =
     [\<lparr>opcode = OtherOpcode 0, args = [], pseudo_ops = []\<rparr>,
      \<lparr>opcode = And32, args = [U32 0xFF, InstRef 0], pseudo_ops = []\<rparr>,
      \<lparr>opcode = And32, args = [U32 0xF0F0, InstRef 1], pseudo_ops = []\<rparr>,
      \<lparr>opcode = Mul64, args = [U64 3, U64 5], pseudo_ops = []\<rparr>]"

section \<open>Host locations and their bookkeeping\<close>

text \<open>
  Modelled from the spec: \<open>HostLoc\<close> (backend_x64/hostloc.h is not among the sources). A
  flat enumeration of three disjoint classes, in this order: the general-purpose
  registers, the vector registers, the spill slots \<open>Spill 0 .. Spill (SpillCount - 1)\<close>.
  The sources name \<open>RSP\<close> and \<open>R15\<close>, the two reserved registers.
\<close>

datatype HostLoc =
    RAX | RCX | RDX | RBX | RSP | RBP | RSI | RDI
  | R8 | R9 | R10 | R11 | R12 | R13 | R14 | R15
  | XMM0 | XMM1 | XMM2 | XMM3 | XMM4 | XMM5 | XMM6 | XMM7
  | XMM8 | XMM9 | XMM10 | XMM11 | XMM12 | XMM13 | XMM14 | XMM15
  | Spill nat

definition all_gprs :: "HostLoc list" where
  "all_gprs = [RAX, RCX, RDX, RBX, RSP, RBP, RSI, RDI, R8, R9, R10, R11, R12, R13, R14, R15]"

definition all_xmms :: "HostLoc list" where
  "all_xmms = [XMM0, XMM1, XMM2, XMM3, XMM4, XMM5, XMM6, XMM7,
               XMM8, XMM9, XMM10, XMM11, XMM12, XMM13, XMM14, XMM15]"

definition HostLocIsGPR :: "HostLoc \<Rightarrow> bool" where
  "HostLocIsGPR l = (l \<in> set all_gprs)"

definition HostLocIsXMM :: "HostLoc \<Rightarrow> bool" where
  "HostLocIsXMM l = (l \<in> set all_xmms)"

definition HostLocIsRegister :: "HostLoc \<Rightarrow> bool" where
  "HostLocIsRegister l = (HostLocIsGPR l \<or> HostLocIsXMM l)"

fun HostLocIsSpill :: "HostLoc \<Rightarrow> bool" where
  "HostLocIsSpill (Spill _) = True"
| "HostLocIsSpill _ = False"

definition HostLocSpill :: "nat \<Rightarrow> HostLoc" where
  "HostLocSpill i = Spill i"

text \<open>
  Modelled from the spec: the per-location record \<open>HostLocInfo\<close> (backend_x64/reg_alloc.h
  is not among the sources): the values held and the lock. The four states of the spec
  are read from the two fields: Empty (no value, not locked), Idle (not locked), Use
  (locked, a value resident), Scratch (locked, no value). \<open>IsIdle\<close> is "not locked", with or
  without a value: \<open>SelectARegister\<close> keeps the locations that are not
  \<open>IsRegisterAllocated\<close>, that is the idle ones, and then prefers "something without a
  value", so a location without a value and without a lock is idle too.
\<close>

record HostLocInfo =
  values_held :: "nat list"
  is_being_used :: bool

definition empty_info :: HostLocInfo where
  \<comment> \<open>the value-initialised record \<open>{}\<close>\<close>
  "empty_info = \<lparr>values_held = [], is_being_used = False\<rparr>"

definition IsIdle :: "HostLocInfo \<Rightarrow> bool" where
  "IsIdle i = (\<not> is_being_used i)"

definition IsLocked :: "HostLocInfo \<Rightarrow> bool" where
  "IsLocked i = is_being_used i"

definition IsEmptyInfo :: "HostLocInfo \<Rightarrow> bool" where
  \<comment> \<open>\<open>HostLocInfo::IsEmpty\<close>\<close>
  "IsEmptyInfo i = (\<not> is_being_used i \<and> values_held i = [])"

definition IsScratch :: "HostLocInfo \<Rightarrow> bool" where
  "IsScratch i = (is_being_used i \<and> values_held i = [])"

definition IsUse :: "HostLocInfo \<Rightarrow> bool" where
  "IsUse i = (is_being_used i \<and> values_held i \<noteq> [])"

definition ContainsValue :: "HostLocInfo \<Rightarrow> nat \<Rightarrow> bool" where
  "ContainsValue i inst = (inst \<in> set (values_held i))"

definition Lock :: "HostLocInfo \<Rightarrow> HostLocInfo" where
  "Lock i = i\<lparr>is_being_used := True\<rparr>"

definition AddValue :: "HostLocInfo \<Rightarrow> nat \<Rightarrow> HostLocInfo" where
  "AddValue i inst = i\<lparr>values_held := values_held i @ [inst]\<rparr>"

definition Info_EndOfAllocScope :: "(nat \<Rightarrow> nat) \<Rightarrow> HostLocInfo \<Rightarrow> HostLocInfo" where
  \<comment> \<open>\<open>HostLocInfo::EndOfAllocScope\<close>: the lock is released and the values without
      remaining uses are evicted\<close>
  "Info_EndOfAllocScope uses i =
     \<lparr>values_held = filter (\<lambda>inst. 0 < uses inst) (values_held i), is_being_used = False\<rparr>"

text \<open>
  What the allocator is compiled against, none of it among the sources: whether
  \<open>DEBUG_ASSERT\<close> checks (common/assert.h), the number of spill slots, the list \<open>any_gpr\<close>,
  and the ABI description (backend_x64/abi.h).
\<close>

record Config =
  debug_asserts :: bool
  SpillCount :: nat
  any_gpr :: "HostLoc list"
  ABI_RETURN :: HostLoc
  ABI_PARAM1 :: HostLoc
  ABI_PARAM2 :: HostLoc
  ABI_PARAM3 :: HostLoc
  ABI_PARAM4 :: HostLoc
  ABI_ALL_CALLER_SAVE :: "HostLoc list"

definition DEBUG_ASSERT :: "Config \<Rightarrow> bool \<Rightarrow> 'x \<Rightarrow> 'x + unit" where
  "DEBUG_ASSERT cfg c e = (if debug_asserts cfg then ASSERT c e else Inr ())"

definition all_hostlocs :: "Config \<Rightarrow> HostLoc list" where
  \<comment> \<open>the indices \<open>0 ..< HostLocCount\<close>\<close>
  "all_hostlocs cfg = all_gprs @ all_xmms @ map HostLocSpill [0 ..< SpillCount cfg]"

text \<open>
  The code the allocator emits: the mnemonic and its operands, each the register or the
  spill slot it names. The conversions \<open>HostLocToReg64\<close>, \<open>HostLocToXmm\<close> and
  \<open>SpillToOpArg\<close> (not among the sources) are taken to name the location they are given.
\<close>

datatype X64 =
    MOVAPS HostLoc HostLoc
  | MOV HostLoc HostLoc
  | MOVSD HostLoc HostLoc
  | XCHG HostLoc HostLoc
  | XOR32 HostLoc HostLoc
  | MOV_imm HostLoc "64 word"

datatype OpArg = OpReg HostLoc | OpMem HostLoc | OpNone

text \<open>
  The state the allocator works on: its table \<open>hostloc_info\<close>, the remaining-use counts
  of the instructions of the block (a count lives in its \<open>IR::Inst\<close>; the allocator holds
  the instruction by its index), and the code emitted so far.
\<close>

record RegAlloc =
  hostloc_info :: "HostLoc \<Rightarrow> HostLocInfo"
  use_count :: "nat \<Rightarrow> nat"
  code :: "X64 list"

definition LocInfo :: "RegAlloc \<Rightarrow> HostLoc \<Rightarrow> HostLocInfo" where
  "LocInfo s l = hostloc_info s l"

definition set_LocInfo :: "RegAlloc \<Rightarrow> HostLoc \<Rightarrow> HostLocInfo \<Rightarrow> RegAlloc" where
  \<comment> \<open>an assignment \<open>LocInfo(l) = i\<close>\<close>
  "set_LocInfo s l i = s\<lparr>hostloc_info := (hostloc_info s)(l := i)\<rparr>"

definition emit :: "RegAlloc \<Rightarrow> X64 \<Rightarrow> RegAlloc" where
  "emit s x = s\<lparr>code := code s @ [x]\<rparr>"

text \<open>
  An assertion that fails in the allocator aborts with the allocator as it is at that
  moment: the failure comes together with the state, which shows what had been changed and
  emitted when the assertion failed. \<open>in_state s\<close> is for the failure of a function that
  works on no state.
\<close>

type_synonym abort = "failure \<times> RegAlloc"

definition in_state :: "RegAlloc \<Rightarrow> failure + 'a \<Rightarrow> abort + 'a" where
  "in_state s m = (case m of Inl e \<Rightarrow> Inl (e, s) | Inr x \<Rightarrow> Inr x)"

text \<open>
  Modelled from the spec: \<open>HasUses\<close> and \<open>DecrementRemainingUses\<close> of \<open>IR::Inst\<close>. The use
  count is a non-negative integer; a decrement at zero is a failure.
\<close>

definition HasUses :: "RegAlloc \<Rightarrow> nat \<Rightarrow> bool" where
  "HasUses s inst = (0 < use_count s inst)"

definition DecrementRemainingUses :: "RegAlloc \<Rightarrow> nat \<Rightarrow> abort + RegAlloc" where
  "DecrementRemainingUses s inst =
     (if use_count s inst = 0 then Inl (NoRemainingUses, s)
      else Inr (s\<lparr>use_count := (use_count s)(inst := use_count s inst - 1)\<rparr>))"

fun GetInst :: "Value \<Rightarrow> failure + nat" where
  "GetInst (InstRef i) = Inr i"
| "GetInst _ = Inl NotAnInst"

section \<open>The register allocator (backend\_x64/reg\_alloc.cpp)\<close>

fun ImmediateToU64 :: "Value \<Rightarrow> failure + 64 word" where
  "ImmediateToU64 (U1 b) = Inr (if b then 1 else 0)"
| "ImmediateToU64 (U8 w) = Inr (ucast w)"
| "ImmediateToU64 (U32 w) = Inr (ucast w)"
| "ImmediateToU64 (U64 w) = Inr w"
| "ImmediateToU64 _ = Inl ThisShouldNeverHappen"

definition HostLocToX64 :: "Config \<Rightarrow> HostLoc \<Rightarrow> failure + OpArg" where
  "HostLocToX64 cfg hostloc =
     (if HostLocIsGPR hostloc then
        bind (DEBUG_ASSERT cfg (hostloc \<noteq> RSP \<and> hostloc \<noteq> R15) AssertionFailed)
          (\<lambda>_. Inr (OpReg hostloc))
      else if HostLocIsXMM hostloc then Inr (OpReg hostloc)
      else Inl ThisShouldNeverHappen)"

definition IsSameHostLocClass :: "HostLoc \<Rightarrow> HostLoc \<Rightarrow> bool" where
  "IsSameHostLocClass a b =
     ((HostLocIsGPR a \<and> HostLocIsGPR b)
      \<or> (HostLocIsXMM a \<and> HostLocIsXMM b)
      \<or> (HostLocIsSpill a \<and> HostLocIsSpill b))"

definition EmitMove :: "RegAlloc \<Rightarrow> HostLoc \<Rightarrow> HostLoc \<Rightarrow> abort + RegAlloc" where
  "EmitMove s to from =
     (if HostLocIsXMM to \<and> HostLocIsXMM from then Inr (emit s (MOVAPS to from))
      else if HostLocIsGPR to \<and> HostLocIsGPR from then Inr (emit s (MOV to from))
      else if HostLocIsXMM to \<and> HostLocIsGPR from then Inl (EmitMoveTODO, s)
      else if HostLocIsGPR to \<and> HostLocIsXMM from then Inl (EmitMoveTODO, s)
      else if HostLocIsXMM to \<and> HostLocIsSpill from then Inr (emit s (MOVSD to from))
      else if HostLocIsSpill to \<and> HostLocIsXMM from then Inr (emit s (MOVSD to from))
      else if HostLocIsGPR to \<and> HostLocIsSpill from then Inr (emit s (MOV to from))
      else if HostLocIsSpill to \<and> HostLocIsGPR from then Inr (emit s (MOV to from))
      else Inl (InvalidEmitMove, s))"

definition EmitExchange :: "RegAlloc \<Rightarrow> HostLoc \<Rightarrow> HostLoc \<Rightarrow> abort + RegAlloc" where
  "EmitExchange s a b =
     (if HostLocIsGPR a \<and> HostLocIsGPR b then Inr (emit s (XCHG a b))
      else if HostLocIsXMM a \<and> HostLocIsXMM b then Inl (ExchangingXMM, s)
      else Inl (InvalidEmitExchange, s))"

definition ValueLocation :: "Config \<Rightarrow> RegAlloc \<Rightarrow> nat \<Rightarrow> HostLoc option" where
  "ValueLocation cfg s inst = find (\<lambda>l. ContainsValue (LocInfo s l) inst) (all_hostlocs cfg)"

definition deref :: "HostLoc option \<Rightarrow> failure + HostLoc" where
  \<comment> \<open>\<open>*optional\<close>\<close>
  "deref x = (case x of Some l \<Rightarrow> Inr l | None \<Rightarrow> Inl NoValueLocation)"

definition IsRegisterOccupied :: "RegAlloc \<Rightarrow> HostLoc \<Rightarrow> bool" where
  "IsRegisterOccupied s loc = (\<not> IsEmptyInfo (LocInfo s loc))"

definition IsRegisterAllocated :: "RegAlloc \<Rightarrow> HostLoc \<Rightarrow> bool" where
  "IsRegisterAllocated s loc = (\<not> IsIdle (LocInfo s loc))"

definition IsLastUse :: "RegAlloc \<Rightarrow> nat \<Rightarrow> bool" where
  "IsLastUse s inst = False"

definition DefineValue :: "Config \<Rightarrow> RegAlloc \<Rightarrow> nat \<Rightarrow> HostLoc \<Rightarrow> abort + RegAlloc" where
  "DefineValue cfg s def_inst host_loc =
     bind (DEBUG_ASSERT cfg (ValueLocation cfg s def_inst = None) (DefAlreadyDefined, s)) (\<lambda>_.
       Inr (set_LocInfo s host_loc (AddValue (LocInfo s host_loc) def_inst)))"

definition FindFreeSpill :: "Config \<Rightarrow> RegAlloc \<Rightarrow> abort + HostLoc" where
  "FindFreeSpill cfg s =
     (case find (\<lambda>l. \<not> IsRegisterOccupied s l) (map HostLocSpill [0 ..< SpillCount cfg]) of
        Some l \<Rightarrow> Inr l
      | None \<Rightarrow> Inl (AllSpillsFull, s))"

definition SpillRegister :: "Config \<Rightarrow> RegAlloc \<Rightarrow> HostLoc \<Rightarrow> abort + RegAlloc" where
  "SpillRegister cfg s loc =
     bind (ASSERT (HostLocIsRegister loc) (OnlyRegistersCanBeSpilled, s)) (\<lambda>_.
     bind (ASSERT (IsRegisterOccupied s loc) (NoNeedToSpill, s)) (\<lambda>_.
     bind (ASSERT (\<not> IsRegisterAllocated s loc) (AllocatedMustNotBeSpilt, s)) (\<lambda>_.
     bind (FindFreeSpill cfg s) (\<lambda>new_loc.
     bind (EmitMove s new_loc loc) (\<lambda>s1.
       Inr (set_LocInfo (set_LocInfo s1 new_loc (LocInfo s1 loc)) loc empty_info))))))"

definition Move :: "RegAlloc \<Rightarrow> HostLoc \<Rightarrow> HostLoc \<Rightarrow> abort + RegAlloc" where
  "Move s to from =
     bind (ASSERT (IsEmptyInfo (LocInfo s to) \<and> \<not> IsLocked (LocInfo s from))
             (AssertionFailed, s)) (\<lambda>_.
       if IsEmptyInfo (LocInfo s from) then Inr s
       else EmitMove (set_LocInfo (set_LocInfo s to (LocInfo s from)) from empty_info) to from)"

definition Exchange :: "RegAlloc \<Rightarrow> HostLoc \<Rightarrow> HostLoc \<Rightarrow> abort + RegAlloc" where
  "Exchange s a b =
     bind (ASSERT (\<not> IsLocked (LocInfo s a) \<and> \<not> IsLocked (LocInfo s b))
             (AssertionFailed, s)) (\<lambda>_.
       if IsEmptyInfo (LocInfo s a) then Move s a b
       else if IsEmptyInfo (LocInfo s b) then Move s b a
       else EmitExchange (set_LocInfo (set_LocInfo s a (LocInfo s b)) b (LocInfo s a)) a b)"

definition MoveOutOfTheWay :: "Config \<Rightarrow> RegAlloc \<Rightarrow> HostLoc \<Rightarrow> abort + RegAlloc" where
  "MoveOutOfTheWay cfg s reg =
     bind (ASSERT (\<not> IsLocked (LocInfo s reg)) (AssertionFailed, s)) (\<lambda>_.
       if IsRegisterOccupied s reg then SpillRegister cfg s reg else Inr s)"

text \<open>
  \<open>std::partition\<close> (not among the sources) moves the elements that satisfy the predicate
  in front of the others and returns where the second group starts; C++ leaves the order
  inside each group open. The order here is the one of the standard libraries on a vector:
  the first element that fails the predicate is exchanged with the last one that satisfies
  it, and so on between the two.
\<close>

function std_partition :: "('a \<Rightarrow> bool) \<Rightarrow> 'a list \<Rightarrow> 'a list \<times> nat" where
  "std_partition p [] = ([], 0)"
| "std_partition p (x # xs) =
     (if p x then
        (let (ys, n) = std_partition p xs in (x # ys, Suc n))
      else
        (case dropWhile (\<lambda>y. \<not> p y) (rev xs) of
           [] \<Rightarrow> (x # xs, 0)
         | y # mid \<Rightarrow>
             (let (ys, n) = std_partition p (rev mid) in
              (y # ys @ x # rev (takeWhile (\<lambda>y. \<not> p y) (rev xs)), Suc n))))"
  by pat_completeness auto

termination
proof (relation "measure (\<lambda>(p, xs). length xs)")
  show "wf (measure (\<lambda>(p, xs). length xs))" by simp
next
  fix p :: "'a \<Rightarrow> bool" and x xs
  show "((p, xs), (p, x # xs)) \<in> measure (\<lambda>(p, xs). length xs)" by simp
next
  fix p :: "'a \<Rightarrow> bool" and x xs y mid
  assume "dropWhile (\<lambda>y. \<not> p y) (rev xs) = y # mid"
  then have "length (y # mid) \<le> length (rev xs)"
    by (metis length_dropWhile_le)
  then show "((p, rev mid), (p, x # xs)) \<in> measure (\<lambda>(p, xs). length xs)" by simp
qed

definition SelectARegister :: "RegAlloc \<Rightarrow> HostLoc list \<Rightarrow> abort + HostLoc" where
  "SelectARegister s desired_locations =
     (let (candidates, allocated_locs) =
            std_partition (\<lambda>loc. \<not> IsRegisterAllocated s loc) desired_locations;
          candidates = take allocated_locs candidates
      in
      bind (ASSERT (candidates \<noteq> []) (AllCandidatesAllocated, s)) (\<lambda>_.
        let (candidates, _) = std_partition (\<lambda>loc. \<not> IsRegisterOccupied s loc) candidates
        in Inr (hd candidates)))"

definition ScratchHostLocReg ::
  "Config \<Rightarrow> RegAlloc \<Rightarrow> HostLoc list \<Rightarrow> abort + (HostLoc \<times> RegAlloc)" where
  "ScratchHostLocReg cfg s desired_locations =
     bind (DEBUG_ASSERT cfg (list_all HostLocIsRegister desired_locations)
             (AssertionFailed, s)) (\<lambda>_.
     bind (SelectARegister s desired_locations) (\<lambda>location.
     bind (if IsRegisterOccupied s location then SpillRegister cfg s location else Inr s) (\<lambda>s1.
       let s2 = set_LocInfo s1 location (Lock (LocInfo s1 location)) in
       bind (DEBUG_ASSERT cfg (IsScratch (LocInfo s2 location)) (AssertionFailed, s2)) (\<lambda>_.
         Inr (location, s2)))))"

definition LoadImmediateIntoHostLocReg ::
  "RegAlloc \<Rightarrow> Value \<Rightarrow> HostLoc \<Rightarrow> abort + (HostLoc \<times> RegAlloc)" where
  "LoadImmediateIntoHostLocReg s imm host_loc =
     bind (ASSERT (IsImmediate imm) (ImmIsNotAnImmediate, s)) (\<lambda>_.
     bind (in_state s (ImmediateToU64 imm)) (\<lambda>imm_value.
       if imm_value = 0 then Inr (host_loc, emit s (XOR32 host_loc host_loc))
       else Inr (host_loc, emit s (MOV_imm host_loc imm_value))))"

definition UseScratchHostLocReg_Inst ::
  "Config \<Rightarrow> RegAlloc \<Rightarrow> nat \<Rightarrow> HostLoc list \<Rightarrow> abort + (HostLoc \<times> RegAlloc)" where
  \<comment> \<open>the overload that takes the \<open>IR::Inst*\<close>\<close>
  "UseScratchHostLocReg_Inst cfg s use_inst desired_locations =
     bind (DEBUG_ASSERT cfg (list_all HostLocIsRegister desired_locations)
             (AssertionFailed, s)) (\<lambda>_.
     bind (DEBUG_ASSERT cfg (ValueLocation cfg s use_inst \<noteq> None) (UseNotDefined, s)) (\<lambda>_.
     bind (ASSERT (HasUses s use_inst) (RanOutOfUses, s)) (\<lambda>_.
     bind (in_state s (deref (ValueLocation cfg s use_inst))) (\<lambda>current_location.
     bind (SelectARegister s desired_locations) (\<lambda>new_location.
     bind (if IsRegisterOccupied s new_location then SpillRegister cfg s new_location
           else Inr s) (\<lambda>s1.
       if HostLocIsSpill current_location then
         bind (EmitMove s1 new_location current_location) (\<lambda>s2.
           let s3 = set_LocInfo s2 new_location (Lock (LocInfo s2 new_location)) in
           bind (DecrementRemainingUses s3 use_inst) (\<lambda>s4.
           bind (DEBUG_ASSERT cfg (IsScratch (LocInfo s4 new_location)) (AssertionFailed, s4)) (\<lambda>_.
             Inr (new_location, s4))))
       else if HostLocIsRegister current_location then
         bind (ASSERT (IsIdle (LocInfo s1 current_location) \<or> IsUse (LocInfo s1 current_location))
                 (AssertionFailed, s1)) (\<lambda>_.
         bind (if current_location \<noteq> new_location
               then EmitMove s1 new_location current_location
               else bind (ASSERT (IsIdle (LocInfo s1 current_location)) (AssertionFailed, s1))
                      (\<lambda>_. Inr s1)) (\<lambda>s2.
           let s3 = set_LocInfo s2 new_location empty_info;
               s4 = set_LocInfo s3 new_location (Lock (LocInfo s3 new_location))
           in
           bind (DecrementRemainingUses s4 use_inst) (\<lambda>s5.
           bind (DEBUG_ASSERT cfg (IsScratch (LocInfo s5 new_location)) (AssertionFailed, s5)) (\<lambda>_.
             Inr (new_location, s5)))))
       else Inl (InvalidCurrentLocation, s1)))))))"

definition UseScratchHostLocReg ::
  "Config \<Rightarrow> RegAlloc \<Rightarrow> Value \<Rightarrow> HostLoc list \<Rightarrow> abort + (HostLoc \<times> RegAlloc)" where
  "UseScratchHostLocReg cfg s use_value desired_locations =
     (if \<not> IsImmediate use_value then
        bind (in_state s (GetInst use_value)) (\<lambda>use_inst.
          UseScratchHostLocReg_Inst cfg s use_inst desired_locations)
      else
        bind (ScratchHostLocReg cfg s desired_locations) (\<lambda>(location, s1).
          LoadImmediateIntoHostLocReg s1 use_value location))"

definition UseHostLocReg_Inst ::
  "Config \<Rightarrow> RegAlloc \<Rightarrow> nat \<Rightarrow> HostLoc list \<Rightarrow> abort + (HostLoc \<times> RegAlloc)" where
  \<comment> \<open>the overload that takes the \<open>IR::Inst*\<close>\<close>
  "UseHostLocReg_Inst cfg s use_inst desired_locations =
     bind (DecrementRemainingUses s use_inst) (\<lambda>s1.
     bind (in_state s1 (deref (ValueLocation cfg s1 use_inst))) (\<lambda>current_location.
       let can_use_current_location = (current_location \<in> set desired_locations) in
       if can_use_current_location then
         Inr (current_location,
              set_LocInfo s1 current_location (Lock (LocInfo s1 current_location)))
       else if IsLocked (LocInfo s1 current_location) then
         UseScratchHostLocReg_Inst cfg s1 use_inst desired_locations
       else
         bind (SelectARegister s1 desired_locations) (\<lambda>destination_location.
         bind (if IsSameHostLocClass destination_location current_location
               then Exchange s1 destination_location current_location
               else bind (MoveOutOfTheWay cfg s1 destination_location) (\<lambda>s2.
                      Move s2 destination_location current_location)) (\<lambda>s3.
           Inr (destination_location,
                set_LocInfo s3 destination_location (Lock (LocInfo s3 destination_location)))))))"

definition UseHostLocReg ::
  "Config \<Rightarrow> RegAlloc \<Rightarrow> Value \<Rightarrow> HostLoc list \<Rightarrow> abort + (HostLoc \<times> RegAlloc)" where
  "UseHostLocReg cfg s use_value desired_locations =
     (if \<not> IsImmediate use_value then
        bind (in_state s (GetInst use_value)) (\<lambda>use_inst.
          UseHostLocReg_Inst cfg s use_inst desired_locations)
      else
        bind (ScratchHostLocReg cfg s desired_locations) (\<lambda>(location, s1).
          LoadImmediateIntoHostLocReg s1 use_value location))"

definition UseOpArg ::
  "Config \<Rightarrow> RegAlloc \<Rightarrow> Value \<Rightarrow> HostLoc list \<Rightarrow> abort + (OpArg \<times> RegAlloc)" where
  "UseOpArg cfg s use_value desired_locations =
     (if IsImmediate use_value then Inl (UseOpArgImmediate, s)
      else
        bind (in_state s (GetInst use_value)) (\<lambda>use_inst.
        bind (UseHostLocReg_Inst cfg s use_inst desired_locations) (\<lambda>(location, s1).
        bind (in_state s1 (HostLocToX64 cfg location)) (\<lambda>oparg.
          Inr (oparg, s1)))))"

definition UseDefOpArgHostLocReg ::
  "Config \<Rightarrow> RegAlloc \<Rightarrow> Value \<Rightarrow> nat \<Rightarrow> HostLoc list \<Rightarrow>
   abort + ((OpArg \<times> HostLoc) \<times> RegAlloc)" where
  "UseDefOpArgHostLocReg cfg s use_value def_inst desired_locations =
     bind (DEBUG_ASSERT cfg (list_all HostLocIsRegister desired_locations)
             (AssertionFailed, s)) (\<lambda>_.
     bind (DEBUG_ASSERT cfg (ValueLocation cfg s def_inst = None) (DefAlreadyDefined, s)) (\<lambda>_.
     bind (DEBUG_ASSERT cfg
             (IsImmediate use_value \<or>
              (case use_value of InstRef i \<Rightarrow> ValueLocation cfg s i \<noteq> None | _ \<Rightarrow> False))
             (UseNotDefined, s)) (\<lambda>_.
     let slow_path =
           bind (UseOpArg cfg s use_value (any_gpr cfg)) (\<lambda>(use_oparg, s1).
           bind (ScratchHostLocReg cfg s1 desired_locations) (\<lambda>(def_reg, s2).
           bind (DefineValue cfg s2 def_inst def_reg) (\<lambda>s3.
             Inr ((use_oparg, def_reg), s3))))
     in
     if \<not> IsImmediate use_value then
       bind (in_state s (GetInst use_value)) (\<lambda>use_inst.
         if IsLastUse s use_inst then
           bind (in_state s (deref (ValueLocation cfg s use_inst))) (\<lambda>current_location.
             if \<not> IsIdle (LocInfo s current_location) then
               (if HostLocIsSpill current_location then
                  let s1 = set_LocInfo s current_location (Lock (LocInfo s current_location)) in
                  bind (DEBUG_ASSERT cfg (IsUse (LocInfo s1 current_location))
                          (AssertionFailed, s1)) (\<lambda>_.
                  bind (ScratchHostLocReg cfg s1 desired_locations) (\<lambda>(location, s2).
                  bind (DefineValue cfg s2 def_inst location) (\<lambda>s3.
                    Inr ((OpMem current_location, location), s3))))
                else
                  let s1 = set_LocInfo s current_location (Lock (LocInfo s current_location)) in
                  bind (DefineValue cfg s1 def_inst current_location) (\<lambda>s2.
                  bind (in_state s2 (HostLocToX64 cfg current_location)) (\<lambda>oparg.
                    Inr ((oparg, current_location), s2))))
             else slow_path)
         else slow_path)
     else slow_path)))"

definition RegisterAddDef :: "Config \<Rightarrow> RegAlloc \<Rightarrow> nat \<Rightarrow> Value \<Rightarrow> abort + RegAlloc" where
  "RegisterAddDef cfg s def_inst use_inst =
     bind (DEBUG_ASSERT cfg (ValueLocation cfg s def_inst = None) (DefAlreadyDefined, s)) (\<lambda>_.
       if IsImmediate use_inst then
         bind (ScratchHostLocReg cfg s (any_gpr cfg)) (\<lambda>(location, s1).
         bind (DefineValue cfg s1 def_inst location) (\<lambda>s2.
         bind (LoadImmediateIntoHostLocReg s2 use_inst location) (\<lambda>(_, s3).
           Inr s3)))
       else
         bind (in_state s (GetInst use_inst)) (\<lambda>i.
         bind (DecrementRemainingUses s i) (\<lambda>s1.
         bind (DEBUG_ASSERT cfg (ValueLocation cfg s1 i \<noteq> None) (UseNotDefined, s1)) (\<lambda>_.
         bind (in_state s1 (deref (ValueLocation cfg s1 i))) (\<lambda>location.
           DefineValue cfg s1 def_inst location)))))"

text \<open>
  \<open>other_caller_save\<close>: the caller-saved registers with the four parameter registers
  erased, each at its first occurrence.
\<close>

definition erase_first :: "HostLoc \<Rightarrow> HostLoc list \<Rightarrow> failure + HostLoc list" where
  \<comment> \<open>\<open>ret.erase(std::find(ret.begin(), ret.end(), hostloc))\<close>\<close>
  "erase_first l xs = (if l \<in> set xs then Inr (remove1 l xs) else Inl EraseAtEnd)"

definition args_hostloc :: "Config \<Rightarrow> HostLoc list" where
  "args_hostloc cfg = [ABI_PARAM1 cfg, ABI_PARAM2 cfg, ABI_PARAM3 cfg, ABI_PARAM4 cfg]"

fun erase_all :: "HostLoc list \<Rightarrow> HostLoc list \<Rightarrow> failure + HostLoc list" where
  "erase_all [] ret = Inr ret"
| "erase_all (l # ls) ret = bind (erase_first l ret) (erase_all ls)"

definition other_caller_save :: "Config \<Rightarrow> failure + HostLoc list" where
  "other_caller_save cfg = erase_all (args_hostloc cfg) (ABI_ALL_CALLER_SAVE cfg)"

fun HostCall_args ::
  "Config \<Rightarrow> (Value \<times> HostLoc) list \<Rightarrow> RegAlloc \<Rightarrow> abort + RegAlloc" where
  \<comment> \<open>the loop over the four argument slots\<close>
  "HostCall_args cfg [] s = Inr s"
| "HostCall_args cfg ((arg, hostloc) # rest) s =
     bind (if \<not> IsEmpty arg then UseScratchHostLocReg cfg s arg [hostloc]
           else ScratchHostLocReg cfg s [hostloc]) (\<lambda>(_, s1).
       HostCall_args cfg rest s1)"

fun HostCall_others :: "Config \<Rightarrow> HostLoc list \<Rightarrow> RegAlloc \<Rightarrow> abort + RegAlloc" where
  \<comment> \<open>the loop over \<open>other_caller_save\<close>\<close>
  "HostCall_others cfg [] s = Inr s"
| "HostCall_others cfg (caller_saved # rest) s =
     bind (ScratchHostLocReg cfg s [caller_saved]) (\<lambda>(_, s1).
       HostCall_others cfg rest s1)"

definition HostCall ::
  "Config \<Rightarrow> RegAlloc \<Rightarrow> nat option \<Rightarrow> Value \<Rightarrow> Value \<Rightarrow> Value \<Rightarrow> Value \<Rightarrow>
   abort + RegAlloc" where
  "HostCall cfg s result_def arg0_use arg1_use arg2_use arg3_use =
     bind (in_state s (other_caller_save cfg)) (\<lambda>others.
     bind (ScratchHostLocReg cfg s [ABI_RETURN cfg]) (\<lambda>(location, s1).
     bind (case result_def of
             Some d \<Rightarrow> DefineValue cfg s1 d location
           | None \<Rightarrow> Inr s1) (\<lambda>s2.
     bind (HostCall_args cfg
             (zip [arg0_use, arg1_use, arg2_use, arg3_use] (args_hostloc cfg)) s2) (\<lambda>s3.
       HostCall_others cfg others s3))))"

definition EndOfAllocScope :: "RegAlloc \<Rightarrow> RegAlloc" where
  "EndOfAllocScope s =
     s\<lparr>hostloc_info := (\<lambda>l. Info_EndOfAllocScope (use_count s) (hostloc_info s l))\<rparr>"

definition AssertNoMoreUses :: "Config \<Rightarrow> RegAlloc \<Rightarrow> abort + unit" where
  "AssertNoMoreUses cfg s =
     (if \<not> list_all (\<lambda>l. IsEmptyInfo (LocInfo s l)) (all_hostlocs cfg) then Inl (Bad, s)
      else Inr ())"

definition Reset :: "RegAlloc \<Rightarrow> RegAlloc" where
  "Reset s = s\<lparr>hostloc_info := (\<lambda>_. empty_info)\<rparr>"

definition UseHostLoc ::
  "Config \<Rightarrow> RegAlloc \<Rightarrow> nat \<Rightarrow> HostLoc list \<Rightarrow> abort + ((HostLoc \<times> bool) \<times> RegAlloc)" where
  "UseHostLoc cfg s use_inst desired_locations =
     bind (DEBUG_ASSERT cfg (list_all HostLocIsRegister desired_locations)
             (AssertionFailed, s)) (\<lambda>_.
     bind (DEBUG_ASSERT cfg (ValueLocation cfg s use_inst \<noteq> None) (UseNotDefined, s)) (\<lambda>_.
     bind (in_state s (deref (ValueLocation cfg s use_inst))) (\<lambda>current_location.
       if current_location \<in> set desired_locations then
         let was_being_used = IsLocked (LocInfo s current_location) in
         bind (ASSERT (IsUse (LocInfo s current_location) \<or> IsIdle (LocInfo s current_location))
                 (AssertionFailed, s)) (\<lambda>_.
           let s1 = set_LocInfo s current_location (Lock (LocInfo s current_location)) in
           bind (DecrementRemainingUses s1 use_inst) (\<lambda>s2.
           bind (DEBUG_ASSERT cfg (IsUse (LocInfo s2 current_location)) (AssertionFailed, s2)) (\<lambda>_.
             Inr ((current_location, was_being_used), s2))))
       else if HostLocIsSpill current_location then
         let was_being_used = IsLocked (LocInfo s current_location);
             s1 = set_LocInfo s current_location (Lock (LocInfo s current_location))
         in
         bind (DecrementRemainingUses s1 use_inst) (\<lambda>s2.
         bind (DEBUG_ASSERT cfg (IsUse (LocInfo s2 current_location)) (AssertionFailed, s2)) (\<lambda>_.
           Inr ((current_location, was_being_used), s2)))
       else if HostLocIsRegister current_location then
         bind (SelectARegister s desired_locations) (\<lambda>new_location.
         bind (ASSERT (IsIdle (LocInfo s current_location)) (AssertionFailed, s)) (\<lambda>_.
         bind (EmitExchange s new_location current_location) (\<lambda>s1.
           let s2 = set_LocInfo (set_LocInfo s1 new_location (LocInfo s1 current_location))
                      current_location (LocInfo s1 new_location);
               s3 = set_LocInfo s2 new_location (Lock (LocInfo s2 new_location))
           in
           bind (DecrementRemainingUses s3 use_inst) (\<lambda>s4.
           bind (DEBUG_ASSERT cfg (IsUse (LocInfo s4 new_location)) (AssertionFailed, s4)) (\<lambda>_.
             Inr ((new_location, False), s4))))))
       else Inl (InvalidCurrentLocation, s))))"

text \<open>
  The operations of the allocator, and a run of them in order, each on the state the
  earlier ones left; the run stops at the first failed assertion.
\<close>

datatype AllocOp =
    OpRegisterAddDef nat Value
  | OpUseDefOpArgHostLocReg Value nat "HostLoc list"
  | OpUseHostLocReg Value "HostLoc list"
  | OpUseOpArg Value "HostLoc list"
  | OpUseScratchHostLocReg Value "HostLoc list"
  | OpScratchHostLocReg "HostLoc list"
  | OpHostCall "nat option" Value Value Value Value
  | OpDefineValue nat HostLoc
  | OpSpillRegister HostLoc
  | OpMove HostLoc HostLoc
  | OpExchange HostLoc HostLoc
  | OpMoveOutOfTheWay HostLoc
  | OpUseHostLoc nat "HostLoc list"
  | OpEndOfAllocScope

fun exec :: "Config \<Rightarrow> AllocOp \<Rightarrow> RegAlloc \<Rightarrow> abort + RegAlloc" where
  "exec cfg (OpRegisterAddDef d u) s = RegisterAddDef cfg s d u"
| "exec cfg (OpUseDefOpArgHostLocReg u d ds) s =
     bind (UseDefOpArgHostLocReg cfg s u d ds) (\<lambda>(_, s'). Inr s')"
| "exec cfg (OpUseHostLocReg u ds) s = bind (UseHostLocReg cfg s u ds) (\<lambda>(_, s'). Inr s')"
| "exec cfg (OpUseOpArg u ds) s = bind (UseOpArg cfg s u ds) (\<lambda>(_, s'). Inr s')"
| "exec cfg (OpUseScratchHostLocReg u ds) s =
     bind (UseScratchHostLocReg cfg s u ds) (\<lambda>(_, s'). Inr s')"
| "exec cfg (OpScratchHostLocReg ds) s = bind (ScratchHostLocReg cfg s ds) (\<lambda>(_, s'). Inr s')"
| "exec cfg (OpHostCall r a0 a1 a2 a3) s = HostCall cfg s r a0 a1 a2 a3"
| "exec cfg (OpDefineValue d l) s = DefineValue cfg s d l"
| "exec cfg (OpSpillRegister l) s = SpillRegister cfg s l"
| "exec cfg (OpMove to from) s = Move s to from"
| "exec cfg (OpExchange a b) s = Exchange s a b"
| "exec cfg (OpMoveOutOfTheWay l) s = MoveOutOfTheWay cfg s l"
| "exec cfg (OpUseHostLoc u ds) s = bind (UseHostLoc cfg s u ds) (\<lambda>(_, s'). Inr s')"
| "exec cfg OpEndOfAllocScope s = Inr (EndOfAllocScope s)"

fun run :: "Config \<Rightarrow> AllocOp list \<Rightarrow> RegAlloc \<Rightarrow> abort + RegAlloc" where
  "run cfg [] s = Inr s"
| "run cfg (op # ops) s = bind (exec cfg op s) (run cfg ops)"


text \<open>
  What a host call needs in order to complete. The registers it reserves are distinct
  registers, none of them locked, and there is a free spill slot for each of them that is
  occupied. An argument is empty, or an immediate that \<open>ImmediateToU64\<close> accepts, or a value
  that is resident in a location known to the allocator and in no vector register, with
  a remaining use for each time it is passed. The result is in no location known to the
  allocator yet.
\<close>

definition free_spills :: "Config \<Rightarrow> RegAlloc \<Rightarrow> HostLoc list" where
  "free_spills cfg s =
     filter (\<lambda>l. \<not> IsRegisterOccupied s l) (map HostLocSpill [0 ..< SpillCount cfg])"


definition located :: "Config \<Rightarrow> RegAlloc \<Rightarrow> nat \<Rightarrow> bool" where
  "located cfg s v =
     (list_ex (\<lambda>l. ContainsValue (LocInfo s l) v) (all_hostlocs cfg) \<and>
      list_all (\<lambda>l. \<not> ContainsValue (LocInfo s l) v) all_xmms)"



definition reserved :: "Config \<Rightarrow> HostLoc \<Rightarrow> RegAlloc \<Rightarrow> RegAlloc \<Rightarrow> bool" where
  \<comment> \<open>the records before and after the register \<open>l\<close> is spilled if occupied, and locked\<close>
  "reserved cfg l s s' =
     (if IsRegisterOccupied s l
      then \<exists>sp \<in> set (free_spills cfg s).
             LocInfo s' = (LocInfo s)(sp := LocInfo s l, l := Lock empty_info)
      else LocInfo s' = (LocInfo s)(l := Lock empty_info))"

section \<open>Example configurations and states\<close>

text \<open>
  A System V configuration with all debug assertions on, and the state after \<open>Reset\<close> of a
  block whose instructions have the given use counts.
\<close>

definition sysv :: Config where
  "sysv = \<lparr>debug_asserts = True, SpillCount = 4,
     any_gpr = [RAX, RBX, RCX, RDX, RSI, RDI, RBP, R8, R9, R10, R11, R12, R13, R14],
     ABI_RETURN = RAX, ABI_PARAM1 = RDI, ABI_PARAM2 = RSI, ABI_PARAM3 = RDX, ABI_PARAM4 = RCX,
     ABI_ALL_CALLER_SAVE = [RAX, RCX, RDX, RDI, RSI, R8, R9, R10, R11,
       XMM0, XMM1, XMM2, XMM3, XMM4, XMM5, XMM6, XMM7,
       XMM8, XMM9, XMM10, XMM11, XMM12, XMM13, XMM14, XMM15]\<rparr>"

text \<open>
  The same description with the return register left out of the caller-saved list.
\<close>

definition sysv_others :: Config where
  "sysv_others = sysv\<lparr>ABI_ALL_CALLER_SAVE := [RCX, RDX, RDI, RSI, R8, R9, R10, R11,
       XMM0, XMM1, XMM2, XMM3, XMM4, XMM5, XMM6, XMM7,
       XMM8, XMM9, XMM10, XMM11, XMM12, XMM13, XMM14, XMM15]\<rparr>"

definition initial :: "(nat \<Rightarrow> nat) \<Rightarrow> RegAlloc" where
  "initial uses = \<lparr>hostloc_info = (\<lambda>_. empty_info), use_count = uses, code = []\<rparr>"

definition host_call_example :: RegAlloc where
  "host_call_example =
     \<lparr>hostloc_info = (\<lambda>_. empty_info)
        (R8 := \<lparr>values_held = [0], is_being_used = False\<rparr>,
         R9 := \<lparr>values_held = [1], is_being_used = False\<rparr>),
      use_count = (\<lambda>_. 2), code = []\<rparr>"

definition select_example :: RegAlloc where
  "select_example =
     \<lparr>hostloc_info = (\<lambda>_. empty_info)
        (RAX := \<lparr>values_held = [], is_being_used = True\<rparr>,
         RCX := \<lparr>values_held = [7], is_being_used = False\<rparr>),
      use_count = (\<lambda>_. 1), code = []\<rparr>"

definition no_uses_example :: RegAlloc where
  "no_uses_example =
     \<lparr>hostloc_info = (\<lambda>_. empty_info)(RAX := \<lparr>values_held = [0], is_being_used = True\<rparr>),
      use_count = (\<lambda>_. 1)(0 := 0), code = []\<rparr>"

section \<open>Where the values are\<close>

text \<open>
  A value is resident where a \<open>HostLocInfo\<close> reports \<open>ContainsValue\<close> for it. \<open>I3_as_claimed\<close> is
  the invariant in the spec's words: every value with remaining uses is resident in
  exactly one location. \<open>at_most_one_HostLoc\<close> is what the allocator keeps for every value,
  defined or not. \<open>moved\<close> relates the states before and after an operation that only moves
  values between locations.
\<close>

definition resident :: "RegAlloc \<Rightarrow> nat \<Rightarrow> bool" where
  "resident s v = (\<exists>l. ContainsValue (LocInfo s l) v)"

definition exactly_one_HostLoc :: "RegAlloc \<Rightarrow> nat \<Rightarrow> bool" where
  "exactly_one_HostLoc s v = (\<exists>!l. ContainsValue (LocInfo s l) v)"

definition I3_as_claimed :: "RegAlloc \<Rightarrow> bool" where
  "I3_as_claimed s = (\<forall>v. 0 < use_count s v \<longrightarrow> exactly_one_HostLoc s v)"

definition at_most_one_HostLoc :: "RegAlloc \<Rightarrow> bool" where
  "at_most_one_HostLoc s =
     (\<forall>v l l'. ContainsValue (LocInfo s l) v \<longrightarrow> ContainsValue (LocInfo s l') v \<longrightarrow> l = l')"

definition vals :: "RegAlloc \<Rightarrow> HostLoc \<Rightarrow> nat set" where
  "vals s l = set (values_held (hostloc_info s l))"

definition moved :: "RegAlloc \<Rightarrow> RegAlloc \<Rightarrow> bool" where
  "moved s s' =
     ((at_most_one_HostLoc s \<longrightarrow> at_most_one_HostLoc s') \<and> (\<forall>v. resident s' v = resident s v))"

definition defined :: "nat \<Rightarrow> RegAlloc \<Rightarrow> RegAlloc \<Rightarrow> bool" where
  \<comment> \<open>the states before and after an operation that value_defined_by \<open>d\<close>\<close>
  "defined d s s' =
     ((\<not> resident s d \<and> at_most_one_HostLoc s \<longrightarrow> at_most_one_HostLoc s') \<and>
      (\<forall>v. resident s' v = (v = d \<or> resident s v)))"

fun value_defined_by :: "AllocOp \<Rightarrow> nat option" where
  "value_defined_by (OpRegisterAddDef d _) = Some d"
| "value_defined_by (OpUseDefOpArgHostLocReg _ d _) = Some d"
| "value_defined_by (OpHostCall r _ _ _ _) = r"
| "value_defined_by (OpDefineValue d _) = Some d"
| "value_defined_by _ = None"

fun fresh_defs :: "Config \<Rightarrow> AllocOp list \<Rightarrow> RegAlloc \<Rightarrow> bool" where
  \<comment> \<open>along the run, a defining operation defines a value that is not resident yet\<close>
  "fresh_defs cfg [] s = True"
| "fresh_defs cfg (op # ops) s =
     ((case value_defined_by op of Some d \<Rightarrow> \<not> resident s d | None \<Rightarrow> True) \<and>
      (case exec cfg op s of Inr s' \<Rightarrow> fresh_defs cfg ops s' | Inl _ \<Rightarrow> True))"

definition I3_example :: RegAlloc where
  "I3_example =
     \<lparr>hostloc_info = (\<lambda>_. empty_info)(RAX := \<lparr>values_held = [0], is_being_used = False\<rparr>),
      use_count = (\<lambda>_. 1), code = []\<rparr>"

definition locked_kept :: "RegAlloc \<Rightarrow> RegAlloc \<Rightarrow> bool" where
  \<comment> \<open>the record of a locked location is left as it is\<close>
  "locked_kept s s' = (\<forall>l. IsLocked (LocInfo s l) \<longrightarrow> LocInfo s' l = LocInfo s l)"

definition uses_le :: "RegAlloc \<Rightarrow> RegAlloc \<Rightarrow> bool" where
  \<comment> \<open>no remaining-use count has been raised\<close>
  "uses_le s s' = (\<forall>v. use_count s' v \<le> use_count s v)"

definition locked_example :: RegAlloc where
  "locked_example =
     \<lparr>hostloc_info = (\<lambda>_. empty_info)(RAX := \<lparr>values_held = [0], is_being_used = True\<rparr>),
      use_count = (\<lambda>_. 3)(0 := 2), code = []\<rparr>"

definition xmm_example :: RegAlloc where
  "xmm_example =
     \<lparr>hostloc_info = (\<lambda>_. empty_info)
        (XMM0 := \<lparr>values_held = [0], is_being_used = False\<rparr>,
         XMM1 := \<lparr>values_held = [1], is_being_used = False\<rparr>),
      use_count = (\<lambda>_. 2), code = []\<rparr>"

definition stable_at :: "nat \<Rightarrow> Block \<Rightarrow> Block \<Rightarrow> bool" where
  \<comment> \<open>instruction \<open>i\<close> keeps its opcode, its pseudo-operations, the number of its operands
      and its immediate operands\<close>
  "stable_at i b b' =
     (length b' = length b \<and>
      (i < length b \<longrightarrow>
         opcode (b' ! i) = opcode (b ! i) \<and>
         pseudo_ops (b' ! i) = pseudo_ops (b ! i) \<and>
         length (args (b' ! i)) = length (args (b ! i)) \<and>
         (\<forall>n < length (args (b ! i)). IsImmediate (args (b ! i) ! n) \<longrightarrow>
            args (b' ! i) ! n = args (b ! i) ! n)))"

section \<open>Facts about the IR operations\<close>

lemma bind_Inl [simp]: "bind (Inl e) f = Inl e"
  by (simp add: bind_def)

lemma bind_Inr [simp]: "bind (Inr x) f = f x"
  by (simp add: bind_def)

lemma in_state_eq_Inr [simp]: "in_state s m = Inr x \<longleftrightarrow> m = Inr x"
  by (cases m) (simp_all add: in_state_def)

lemma in_state_simps [simp]:
  "in_state s (Inr x) = Inr x"
  "in_state s (Inl e) = Inl (e, s)"
  by (simp_all add: in_state_def)

lemma bind_eq_Inr: "bind m f = Inr y \<longleftrightarrow> (\<exists>x. m = Inr x \<and> f x = Inr y)"
  by (cases m) simp_all

lemma GetArg_eq_Inr: "GetArg inst n = Inr v \<longleftrightarrow> n < length (args inst) \<and> v = args inst ! n"
  by (auto simp: GetArg_def)

lemma length_Inst_ReplaceUsesWith [simp]: "length (Inst_ReplaceUsesWith b i v) = length b"
  by (simp add: Inst_ReplaceUsesWith_def)

lemma nth_Inst_ReplaceUsesWith:
  "j < length b \<Longrightarrow>
   Inst_ReplaceUsesWith b i v ! j = (b ! j)\<lparr>args := map (subst_use i v) (args (b ! j))\<rparr>"
  by (simp add: Inst_ReplaceUsesWith_def)

section \<open>The step at a division by zero\<close>

lemma FoldInst_div_by_zero:
  assumes "i < length b"
    and "opcode (b ! i) \<in> {SignedDiv32, SignedDiv64, UnsignedDiv32, UnsignedDiv64}"
    and "1 < length (args (b ! i))"
    and "IsZero (args (b ! i) ! 1)"
  shows "\<exists>b'. FoldInst b i = Inr b' \<and> length b' = length b \<and>
           (\<forall>j < length b. opcode (b' ! j) = opcode (b ! j) \<and>
              args (b' ! j) =
                map (\<lambda>a. if a = InstRef i
                          then (if opcode (b ! i) \<in> {SignedDiv32, UnsignedDiv32}
                                then U32 0 else U64 0)
                          else a) (args (b ! j)))"
  using assms
  by (auto simp: FoldInst_def FoldDivide_def GetArg_def ReplaceUsesWith_def
      nth_Inst_ReplaceUsesWith subst_use_def)

section \<open>The step at a commutative operation on two immediates\<close>

lemma ucast_mul32: "(ucast ((ucast (p :: 32 word) :: 64 word) * ucast (q :: 32 word)) :: 32 word) = p * q"
proof -
  have p: "unat p < 18446744073709551616" using unsigned_less [of p, where ?'a = nat] by simp
  have q: "unat q < 18446744073709551616" using unsigned_less [of q, where ?'a = nat] by simp
  have "unat (ucast ((ucast p :: 64 word) * ucast q) :: 32 word) = unat (p * q)"
    by (simp add: unsigned_ucast_eq unat_word_ariths take_bit_eq_mod mod_mod_cancel p q)
  then show ?thesis by (simp add: word_unat_eq_iff)
qed

lemma ucast_and32: "(ucast ((ucast (p :: 32 word) :: 64 word) AND ucast (q :: 32 word)) :: 32 word) = p AND q"
  by (rule bit_word_eqI) (auto simp: bit_simps)
lemma ucast_or32: "(ucast ((ucast (p :: 32 word) :: 64 word) OR ucast (q :: 32 word)) :: 32 word) = p OR q"
  by (rule bit_word_eqI) (auto simp: bit_simps)
lemma ucast_xor32: "(ucast ((ucast (p :: 32 word) :: 64 word) XOR ucast (q :: 32 word)) :: 32 word) = p XOR q"
  by (rule bit_word_eqI) (auto simp: bit_simps)

lemma direct_eval_truncate:
  "(ucast (direct_eval op (ucast (p :: 32 word) :: 64 word) (ucast (q :: 32 word))) :: 32 word) = direct_eval op p q"
  by (simp add: direct_eval_def ucast_and32 ucast_or32 ucast_xor32 ucast_mul32)

lemma FoldCommutative_both_imm:
  assumes "GetArg (b ! i) 0 = Inr lhs" "GetArg (b ! i) 1 = Inr rhs"
    "GetImmediateAsU64 lhs = Inr x" "GetImmediateAsU64 rhs = Inr y"
  shows "FoldCommutative b i w f = Inr (False, ReplaceUsesWith b i w (f x y))"
proof -
  from assms(3) have "IsImmediate lhs" by (cases lhs) auto
  moreover from assms(4) have "IsImmediate rhs" by (cases rhs) auto
  ultimately show ?thesis using assms by (simp add: FoldCommutative_def)
qed

lemma FoldInst_commutative_immediates:
  assumes "i < length b"
    and "opcode (b ! i) \<in> {And32, And64, Or32, Or64, Eor32, Eor64, Mul32, Mul64}"
    and "GetArg (b ! i) 0 = Inr lhs" and "GetArg (b ! i) 1 = Inr rhs"
    and "GetImmediateAsU64 lhs = Inr x" and "GetImmediateAsU64 rhs = Inr y"
  shows "\<exists>b' imm. FoldInst b i = Inr b' \<and> length b' = length b \<and>
           imm = (if opcode (b ! i) \<in> {And32, Or32, Eor32, Mul32}
                  then U32 (ucast (direct_eval (opcode (b ! i)) x y))
                  else U64 (direct_eval (opcode (b ! i)) x y)) \<and>
           (\<forall>j < length b. opcode (b' ! j) = opcode (b ! j) \<and>
              args (b' ! j) = map (\<lambda>a. if a = InstRef i then imm else a) (args (b ! j))) \<and>
           (\<forall>p q. lhs = U32 p \<and> rhs = U32 q \<and> opcode (b ! i) \<in> {And32, Or32, Eor32, Mul32} \<longrightarrow>
              imm = U32 (direct_eval (opcode (b ! i)) p q))"
  using assms(1,2,5,6) FoldCommutative_both_imm [OF assms(3-6)]
  by (auto simp: FoldInst_def FoldAND_def FoldOR_def FoldEOR_def FoldMultiply_def
      ReplaceUsesWith_def nth_Inst_ReplaceUsesWith subst_use_def direct_eval_def
      ucast_and32 ucast_or32 ucast_xor32 ucast_mul32)

section \<open>The step at a shift by zero\<close>

lemma IsZero_not_InstRef: "IsZero v \<Longrightarrow> v \<noteq> InstRef r"
  by (auto simp: IsZero_def IsUnsignedImmediate_def)

lemma SetArg_eq_Inr:
  "SetArg b i n v = Inr b' \<longleftrightarrow>
     n < length (args (b ! i)) \<and> b' = b[i := (b ! i)\<lparr>args := (args (b ! i))[n := v]\<rparr>]"
  by (auto simp: SetArg_def)

lemma FoldInst_shift_zero:
  assumes "i < length b"
    and "opcode (b ! i) \<in> {LogicalShiftLeft32, LogicalShiftLeft64, LogicalShiftRight32,
           LogicalShiftRight64, ArithmeticShiftRight32, ArithmeticShiftRight64,
           RotateRight32, RotateRight64}"
    and "1 < length (args (b ! i))"
    and "IsZero (args (b ! i) ! 1)"
    and "\<forall>c. GetAssociatedPseudoOperation (b ! i) GetCarryFromOp = Some c \<longrightarrow>
           2 < length (args (b ! i)) \<and> c \<noteq> i \<and>
           args (b ! i) ! 0 \<noteq> InstRef c \<and> args (b ! i) ! 2 \<noteq> InstRef i"
  shows "\<exists>b'. FoldInst b i = Inr b' \<and> length b' = length b \<and>
           (\<forall>j < length b. opcode (b' ! j) = opcode (b ! j) \<and>
              args (b' ! j) =
                (case GetAssociatedPseudoOperation (b ! i) GetCarryFromOp of
                   Some c \<Rightarrow>
                     map (\<lambda>a. if a = InstRef i then args (b ! i) ! 0
                               else if a = InstRef c then args (b ! i) ! 2
                               else a) (args (b ! j))
                 | None \<Rightarrow>
                     map (\<lambda>a. if a = InstRef i then args (b ! i) ! 0 else a)
                       (if j = i \<and> length (args (b ! i)) = 3
                        then (args (b ! i))[2 := U1 False]
                        else args (b ! j))))"
proof (cases "GetAssociatedPseudoOperation (b ! i) GetCarryFromOp")
  case None
  show ?thesis
  proof (cases "length (args (b ! i)) = 3")
    case True
    with None assms(1-4) show ?thesis
      by (auto simp: FoldInst_def FoldShifts_def NumArgs_def SetArg_def GetArg_def
          nth_Inst_ReplaceUsesWith subst_use_def nth_list_update)
  next
    case False
    with None assms(1-4) show ?thesis
      by (auto simp: FoldInst_def FoldShifts_def NumArgs_def SetArg_def GetArg_def
          nth_Inst_ReplaceUsesWith subst_use_def nth_list_update)
  qed
next
  case (Some c)
  with assms(5) have c: "2 < length (args (b ! i))" "c \<noteq> i"
    "args (b ! i) ! 0 \<noteq> InstRef c" "args (b ! i) ! 2 \<noteq> InstRef i" by auto
  with Some assms(1-4) show ?thesis
    by (auto simp: FoldInst_def FoldShifts_def NumArgs_def GetArg_def
          nth_Inst_ReplaceUsesWith subst_use_def IsZero_not_InstRef)
qed

section \<open>The pass leaves commutative instructions normalized\<close>

lemma wf_block_iff: "wf_block b \<longleftrightarrow> (\<forall>j < length b. wf_inst j (b ! j))"
  by (auto simp: wf_block_def list_all_length nth_enumerate_eq)

lemma older_mono: "older k v \<Longrightarrow> k \<le> m \<Longrightarrow> older m v"
  by (cases v) auto

lemma older_imm: "IsImmediate v \<Longrightarrow> older k v"
  by (cases v) auto

lemma wf_arg_older:
  "wf_block b \<Longrightarrow> j < length b \<Longrightarrow> n < length (args (b ! j)) \<Longrightarrow> older j (args (b ! j) ! n)"
  by (auto simp: wf_block_iff wf_inst_def list_all_length)

lemma wf_no_forward_ref:
  "wf_block b \<Longrightarrow> j < length b \<Longrightarrow> j \<le> k \<Longrightarrow> InstRef k \<notin> set (args (b ! j))"
proof
  assume w: "wf_block b" and j: "j < length b" "j \<le> k"
    and mem: "InstRef k \<in> set (args (b ! j))"
  from w j have "wf_inst j (b ! j)" by (simp add: wf_block_iff)
  then have "\<forall>a \<in> set (args (b ! j)). older j a" by (simp add: wf_inst_def list_all_iff)
  with mem have "older j (InstRef k)" by blast
  with j show False by simp
qed

lemma wf_carry_later:
  "wf_block b \<Longrightarrow> j < length b \<Longrightarrow> GetAssociatedPseudoOperation (b ! j) op = Some c \<Longrightarrow> j < c"
  by (auto simp: wf_block_iff wf_inst_def list_all_iff GetAssociatedPseudoOperation_def
      dest!: map_of_SomeD)

lemma Replace_keeps_older:
  assumes "wf_block b" "j < length b" "j \<le> k"
  shows "Inst_ReplaceUsesWith b k v ! j = b ! j"
proof -
  from wf_no_forward_ref [OF assms] have "map (subst_use k v) (args (b ! j)) = args (b ! j)"
    by (intro map_idI) (auto simp: subst_use_def)
  with assms(2) show ?thesis by (simp add: nth_Inst_ReplaceUsesWith)
qed

lemma Replace_wf:
  assumes "wf_block b" "older k v"
  shows "wf_block (Inst_ReplaceUsesWith b k v)"
  unfolding wf_block_iff
proof (intro allI impI)
  fix m assume m: "m < length (Inst_ReplaceUsesWith b k v)"
  then have m': "m < length b" by simp
  from assms(1) m' have w: "wf_inst m (b ! m)" by (simp add: wf_block_iff)
  have "older m (subst_use k v a)" if "a \<in> set (args (b ! m))" for a
  proof (cases "a = InstRef k")
    case True
    with that w have "k < m" by (auto simp: wf_inst_def list_all_iff)
    with assms(2) True show ?thesis by (simp add: subst_use_def older_mono)
  next
    case False
    with that w show ?thesis by (auto simp: wf_inst_def list_all_iff subst_use_def)
  qed
  with w m' show "wf_inst m (Inst_ReplaceUsesWith b k v ! m)"
    by (auto simp: wf_inst_def list_all_iff nth_Inst_ReplaceUsesWith)
qed

lemma keeps_refl: "wf_block b \<Longrightarrow> keeps i b b"
  by (simp add: keeps_def)

lemma keeps_trans: "keeps i b b1 \<Longrightarrow> keeps i b1 b2 \<Longrightarrow> keeps i b b2"
  by (auto simp: keeps_def)

lemma keeps_Replace:
  "wf_block b \<Longrightarrow> older k v \<Longrightarrow> i \<le> k \<Longrightarrow> keeps i b (Inst_ReplaceUsesWith b k v)"
  by (auto simp: keeps_def Replace_wf Replace_keeps_older)

lemma keeps_ReplaceW:
  "wf_block b \<Longrightarrow> i \<le> k \<Longrightarrow> keeps i b (ReplaceUsesWith b k w x)"
  by (simp add: ReplaceUsesWith_def keeps_Replace)

lemma SetArg_wf:
  assumes "SetArg b i n v = Inr b'" "wf_block b" "older i v" "i < length b"
  shows "length b' = length b \<and> wf_block b' \<and> (\<forall>j. j \<noteq> i \<longrightarrow> b' ! j = b ! j) \<and>
         opcode (b' ! i) = opcode (b ! i) \<and> pseudo_ops (b' ! i) = pseudo_ops (b ! i) \<and>
         args (b' ! i) = (args (b ! i))[n := v]"
proof -
  from assms(1) have n: "n < length (args (b ! i))"
    and b': "b' = b[i := (b ! i)\<lparr>args := (args (b ! i))[n := v]\<rparr>]"
    by (auto simp: SetArg_def split: if_splits)
  have "wf_inst j (b' ! j)" if "j < length b" for j
  proof (cases "j = i")
    case True
    from assms(2,4) have "wf_inst i (b ! i)" by (simp add: wf_block_iff)
    with assms(3) that True show ?thesis
      by (auto simp: b' wf_inst_def list_all_iff dest!: set_update_subset_insert [THEN subsetD])
  next
    case False
    with assms(2) that show ?thesis by (simp add: b' wf_block_iff)
  qed
  with assms(4) show ?thesis by (simp add: b' wf_block_iff)
qed

lemma keeps_step_ok: "keeps i b b' \<Longrightarrow> i < length b \<Longrightarrow> step_ok i b b'"
  by (auto simp: keeps_def step_ok_def)

lemma keeps_same: "keeps i b b' \<Longrightarrow> i < length b \<Longrightarrow> b' ! i = b ! i"
  by (auto simp: keeps_def)

lemma keeps_wf: "keeps i b b' \<Longrightarrow> wf_block b'"
  by (simp add: keeps_def)

lemma keeps_length: "keeps i b b' \<Longrightarrow> length b' = length b"
  by (simp add: keeps_def)

lemma step_ok_keeps: "step_ok i b b1 \<Longrightarrow> keeps i b1 b2 \<Longrightarrow> i < length b \<Longrightarrow> step_ok i b b2"
  by (auto simp: keeps_def step_ok_def)

lemma SetArg2:
  assumes "SetArg b i 0 u = Inr b1" "SetArg b1 i 1 v = Inr b2"
    and "wf_block b" "older i u" "older i v" "i < length b"
  shows "step_ok i b b2 \<and> 1 < length (args (b2 ! i)) \<and> args (b2 ! i) ! 0 = u \<and> args (b2 ! i) ! 1 = v"
proof -
  from SetArg_wf [OF assms(1,3,4,6)]
  have 1: "length b1 = length b" "wf_block b1" "\<forall>j. j \<noteq> i \<longrightarrow> b1 ! j = b ! j"
    "opcode (b1 ! i) = opcode (b ! i)" "args (b1 ! i) = (args (b ! i))[0 := u]" by auto
  from 1(1) assms(6) have i1: "i < length b1" by simp
  from SetArg_wf [OF assms(2) 1(2) assms(5) i1]
  have 2: "length b2 = length b1" "wf_block b2" "\<forall>j. j \<noteq> i \<longrightarrow> b2 ! j = b1 ! j"
    "opcode (b2 ! i) = opcode (b1 ! i)" "args (b2 ! i) = (args (b1 ! i))[1 := v]" by auto
  from assms(2) have l1: "1 < length (args (b1 ! i))" by (auto simp: SetArg_def split: if_splits)
  with 1(5) have l: "1 < length (args (b ! i))" by simp
  then have l0: "0 < length (args (b ! i))" by (cases "args (b ! i)") auto
  have "args (b2 ! i) ! 0 = u" using 1(5) 2(5) l0 by simp
  moreover have "args (b2 ! i) ! 1 = v" using 1(5) 2(5) l by simp
  moreover have "1 < length (args (b2 ! i))" using 1(5) 2(5) l by simp
  ultimately show ?thesis using 1 2 by (auto simp: step_ok_def)
qed

lemma GetInstRecursive_eq_Inr:
  "GetInstRecursive b v = Inr inst \<longleftrightarrow> (\<exists>r. v = InstRef r \<and> r < length b \<and> inst = b ! r)"
  by (cases v) auto

lemma FoldCommutative_step:
  assumes "FoldCommutative b i w f = Inr (c, b')" "wf_block b" "i < length b"
  shows "step_ok i b b' \<and> normalized (b' ! i)"
proof -
  from assms(1) obtain lhs rhs where a: "GetArg (b ! i) 0 = Inr lhs" "GetArg (b ! i) 1 = Inr rhs"
    by (auto simp: FoldCommutative_def Let_def bind_eq_Inr)
  then have len: "1 < length (args (b ! i))" and lhs: "lhs = args (b ! i) ! 0"
    and rhs: "rhs = args (b ! i) ! 1"
    by (auto simp: GetArg_eq_Inr)
  from len have len0: "0 < length (args (b ! i))" by (cases "args (b ! i)") auto
  from wf_arg_older [OF assms(2,3) len0] wf_arg_older [OF assms(2,3) len] lhs rhs
  have old: "older i lhs" "older i rhs" by auto
  note fc = assms(1) [unfolded FoldCommutative_def Let_def a bind_Inr]
  consider (both) "IsImmediate lhs" "IsImmediate rhs"
    | (left) "IsImmediate lhs" "\<not> IsImmediate rhs"
    | (right) "\<not> IsImmediate lhs" "IsImmediate rhs"
    | (none) "\<not> IsImmediate lhs" "\<not> IsImmediate rhs" by blast
  then show ?thesis
  proof cases
    case both
    with fc obtain x where "b' = ReplaceUsesWith b i w x"
      by (auto simp: bind_eq_Inr)
    with keeps_ReplaceW [OF assms(2), of i i w x] have k: "keeps i b b'" by simp
    with assms(3) both len lhs rhs show ?thesis
      by (simp add: keeps_step_ok keeps_same normalized_def)
  next
    case left
    then obtain r where r: "rhs = InstRef r" by (cases rhs) auto
    with old have ri: "r < i" by simp
    from left fc r have rl: "r < length b"
      by (auto simp: bind_eq_Inr split: if_splits)
    from left fc r rl
    consider (fuse) x y b1 where "0 < length (args (b ! r))"
        "SetArg b i 0 (args (b ! r) ! 0) = Inr b1" "SetArg b1 i 1 (ValueOf w (f x y)) = Inr b'"
      | (swap) b1 where "SetArg b i 0 rhs = Inr b1" "SetArg b1 i 1 lhs = Inr b'"
      by (auto simp: bind_eq_Inr GetArg_eq_Inr split: if_splits)
    then show ?thesis
    proof cases
      case fuse
      from wf_arg_older [OF assms(2) rl fuse(1)] ri have "older i (args (b ! r) ! 0)"
        by (auto intro: older_mono)
      moreover have "older i (ValueOf w (f x y))" by (simp add: ValueOf_def)
      ultimately show ?thesis
        using SetArg2 [OF fuse(2,3) assms(2) _ _ assms(3)]
        by (auto simp: normalized_def ValueOf_def)
    next
      case swap
      with SetArg2 [OF swap assms(2) old(2,1) assms(3)] left show ?thesis
        by (auto simp: normalized_def)
    qed
  next
    case right
    then obtain r where r: "lhs = InstRef r" by (cases lhs) auto
    with old have ri: "r < i" by simp
    from right fc r have rl: "r < length b"
      by (auto simp: bind_eq_Inr split: if_splits)
    from right fc r rl
    consider (fuse) x y b1 where "0 < length (args (b ! r))"
        "SetArg b i 0 (args (b ! r) ! 0) = Inr b1" "SetArg b1 i 1 (ValueOf w (f x y)) = Inr b'"
      | (same) "b' = b"
      by (auto simp: bind_eq_Inr GetArg_eq_Inr split: if_splits)
    then show ?thesis
    proof cases
      case fuse
      from wf_arg_older [OF assms(2) rl fuse(1)] ri have "older i (args (b ! r) ! 0)"
        by (auto intro: older_mono)
      moreover have "older i (ValueOf w (f x y))" by (simp add: ValueOf_def)
      ultimately show ?thesis
        using SetArg2 [OF fuse(2,3) assms(2) _ _ assms(3)]
        by (auto simp: normalized_def ValueOf_def)
    next
      case same
      with right assms(2) len lhs rhs show ?thesis
        by (simp add: step_ok_def normalized_def)
    qed
  next
    case none
    with fc have "b' = b"
      by (auto simp: bind_eq_Inr)
    with none assms(2) len lhs show ?thesis
      by (simp add: step_ok_def normalized_def)
  qed
qed

lemma GetArg_older:
  "wf_block b \<Longrightarrow> i < length b \<Longrightarrow> GetArg (b ! i) n = Inr v \<Longrightarrow> older i v"
  by (auto simp: GetArg_eq_Inr wf_arg_older)

lemma keeps_Replace_arg:
  "wf_block b \<Longrightarrow> i < length b \<Longrightarrow> GetArg (b ! i) n = Inr v \<Longrightarrow>
   keeps i b (Inst_ReplaceUsesWith b i v)"
  by (rule keeps_Replace) (auto dest: GetArg_older)

lemma FoldLeastSignificantByte_keeps:
  "FoldLeastSignificantByte b i = Inr b' \<Longrightarrow> wf_block b \<Longrightarrow> keeps i b b'"
  by (auto simp: FoldLeastSignificantByte_def bind_eq_Inr keeps_refl keeps_Replace split: if_splits)

lemma FoldLeastSignificantHalf_keeps:
  "FoldLeastSignificantHalf b i = Inr b' \<Longrightarrow> wf_block b \<Longrightarrow> keeps i b b'"
  by (auto simp: FoldLeastSignificantHalf_def bind_eq_Inr keeps_refl keeps_Replace split: if_splits)

lemma FoldLeastSignificantWord_keeps:
  "FoldLeastSignificantWord b i = Inr b' \<Longrightarrow> wf_block b \<Longrightarrow> keeps i b b'"
  by (auto simp: FoldLeastSignificantWord_def bind_eq_Inr keeps_refl keeps_Replace split: if_splits)

lemma FoldMostSignificantBit_keeps:
  "FoldMostSignificantBit b i = Inr b' \<Longrightarrow> wf_block b \<Longrightarrow> keeps i b b'"
  by (auto simp: FoldMostSignificantBit_def bind_eq_Inr keeps_refl keeps_Replace split: if_splits)

lemma FoldSignExtendXToWord_keeps:
  "FoldSignExtendXToWord b i = Inr b' \<Longrightarrow> wf_block b \<Longrightarrow> keeps i b b'"
  by (auto simp: FoldSignExtendXToWord_def bind_eq_Inr keeps_refl keeps_Replace split: if_splits)

lemma FoldSignExtendXToLong_keeps:
  "FoldSignExtendXToLong b i = Inr b' \<Longrightarrow> wf_block b \<Longrightarrow> keeps i b b'"
  by (auto simp: FoldSignExtendXToLong_def bind_eq_Inr keeps_refl keeps_Replace split: if_splits)

lemma FoldZeroExtendXToWord_keeps:
  "FoldZeroExtendXToWord b i = Inr b' \<Longrightarrow> wf_block b \<Longrightarrow> keeps i b b'"
  by (auto simp: FoldZeroExtendXToWord_def bind_eq_Inr keeps_refl keeps_Replace split: if_splits)

lemma FoldZeroExtendXToLong_keeps:
  "FoldZeroExtendXToLong b i = Inr b' \<Longrightarrow> wf_block b \<Longrightarrow> keeps i b b'"
  by (auto simp: FoldZeroExtendXToLong_def bind_eq_Inr keeps_refl keeps_Replace split: if_splits)

lemma FoldNOT_keeps:
  "FoldNOT b i w = Inr b' \<Longrightarrow> wf_block b \<Longrightarrow> keeps i b b'"
  by (auto simp: FoldNOT_def bind_eq_Inr keeps_refl keeps_ReplaceW split: if_splits)

lemma FoldByteReverse_keeps:
  "FoldByteReverse b i op = Inr b' \<Longrightarrow> wf_block b \<Longrightarrow> keeps i b b'"
  by (auto simp: FoldByteReverse_def bind_eq_Inr keeps_refl keeps_Replace split: if_splits)

lemma FoldDivide_keeps:
  "FoldDivide b i w sg = Inr b' \<Longrightarrow> wf_block b \<Longrightarrow> i < length b \<Longrightarrow> keeps i b b'"
  by (auto simp: FoldDivide_def bind_eq_Inr keeps_refl keeps_ReplaceW keeps_Replace_arg
      split: if_splits)

lemma FoldMostSignificantWord_keeps:
  assumes "FoldMostSignificantWord b i = Inr b'" "wf_block b" "i < length b"
  shows "keeps i b b'"
proof (cases "GetAssociatedPseudoOperation (b ! i) GetCarryFromOp")
  case None
  with assms show ?thesis
    by (auto simp: FoldMostSignificantWord_def bind_eq_Inr keeps_refl keeps_Replace
        split: if_splits)
next
  case (Some c)
  with wf_carry_later [OF assms(2,3)] have ic: "i \<le> c" by fastforce
  show ?thesis
  proof (cases "AreAllArgsImmediates (b ! i)")
    case False
    with assms show ?thesis by (simp add: FoldMostSignificantWord_def keeps_refl)
  next
    case True
    with assms(1) Some obtain x y where
      b': "b' = Inst_ReplaceUsesWith (Inst_ReplaceUsesWith b c (U1 x)) i (U32 y)"
      by (auto simp: FoldMostSignificantWord_def bind_eq_Inr)
    have k1: "keeps i b (Inst_ReplaceUsesWith b c (U1 x))"
      using assms(2) ic by (simp add: keeps_Replace)
    have "keeps i (Inst_ReplaceUsesWith b c (U1 x)) b'"
      unfolding b' using keeps_wf [OF k1] by (simp add: keeps_Replace)
    with k1 show ?thesis by (rule keeps_trans)
  qed
qed

lemma FoldShifts_step:
  assumes "FoldShifts b i = Inr b'" "wf_block b" "i < length b"
  shows "step_ok i b b'"
proof -
  let ?carry = "GetAssociatedPseudoOperation (b ! i) GetCarryFromOp"
  from assms(1) obtain b1 where
    b1: "(if NumArgs (b ! i) = 3 \<and> ?carry = None then SetArg b i 2 (U1 False) else Inr b) = Inr b1"
    by (auto simp: FoldShifts_def Let_def bind_eq_Inr)
  have s1: "step_ok i b b1 \<and> pseudo_ops (b1 ! i) = pseudo_ops (b ! i)"
  proof (cases "NumArgs (b ! i) = 3 \<and> ?carry = None")
    case True
    with b1 have "SetArg b i 2 (U1 False) = Inr b1" by simp
    from SetArg_wf [OF this assms(2) _ assms(3)] show ?thesis by (simp add: step_ok_def)
  next
    case False
    with b1 assms(2) show ?thesis by (auto simp: step_ok_def)
  qed
  then have w1: "wf_block b1" and l1: "length b1 = length b" by (auto simp: step_ok_def)
  with assms(3) have i1: "i < length b1" by simp
  have "keeps i b1 b'"
  proof (cases ?carry)
    case None
    with assms(1) b1 w1 i1 show ?thesis
      by (auto simp: FoldShifts_def Let_def bind_eq_Inr keeps_refl keeps_Replace_arg
          split: if_splits)
  next
    case (Some c)
    with wf_carry_later [OF assms(2,3)] have ic: "i \<le> c" by fastforce
    from Some b1 have bb: "b1 = b" by simp
    show ?thesis
    proof (cases "\<exists>s. GetArg (b ! i) 1 = Inr s \<and> IsZero s")
      case False
      with assms(1) Some bb w1 show ?thesis
        by (auto simp: FoldShifts_def Let_def bind_eq_Inr keeps_refl split: if_splits)
    next
      case True
      with assms(1) Some obtain a2 a0 where
        a2: "GetArg (b ! i) 2 = Inr a2"
        and a0: "GetArg (Inst_ReplaceUsesWith b c a2 ! i) 0 = Inr a0"
        and b': "b' = Inst_ReplaceUsesWith (Inst_ReplaceUsesWith b c a2) i a0"
        by (auto simp: FoldShifts_def Let_def bind_eq_Inr split: if_splits)
      from GetArg_older [OF assms(2,3) a2] ic have "older c a2" by (auto intro: older_mono)
      with assms(2) ic have k1: "keeps i b (Inst_ReplaceUsesWith b c a2)"
        by (simp add: keeps_Replace)
      have "keeps i (Inst_ReplaceUsesWith b c a2) b'"
        unfolding b' using keeps_wf [OF k1] a0 assms(3)
        by (intro keeps_Replace_arg) auto
      with k1 bb show ?thesis by (auto intro: keeps_trans)
    qed
  qed
  with s1 assms(3) show ?thesis by (auto intro: step_ok_keeps)
qed

lemma after_FoldCommutative:
  assumes "FoldCommutative b i w f = Inr (c, b1)" "wf_block b" "i < length b"
    and "keeps i b1 b'"
  shows "step_ok i b b' \<and> normalized (b' ! i)"
proof -
  from FoldCommutative_step [OF assms(1-3)] have s: "step_ok i b b1" "normalized (b1 ! i)" by auto
  from s(1) assms(3) have "i < length b1" by (simp add: step_ok_def)
  with assms(4) have "b' ! i = b1 ! i" by (rule keeps_same)
  with s step_ok_keeps [OF s(1) assms(4,3)] show ?thesis by simp
qed

lemma FoldCommutative_wf:
  "FoldCommutative b i w f = Inr (c, b1) \<Longrightarrow> wf_block b \<Longrightarrow> i < length b \<Longrightarrow>
   wf_block b1 \<and> i < length b1"
  by (drule (2) FoldCommutative_step) (simp add: step_ok_def)

lemma FoldAND_step:
  assumes "FoldAND b i w = Inr b'" "wf_block b" "i < length b"
  shows "step_ok i b b' \<and> normalized (b' ! i)"
proof -
  from assms(1) obtain c b1 where fc: "FoldCommutative b i w (\<lambda>x y. x AND y) = Inr (c, b1)"
    by (auto simp: FoldAND_def bind_eq_Inr)
  from FoldCommutative_wf [OF fc assms(2,3)] have w1: "wf_block b1" "i < length b1" by auto
  from assms(1) fc w1 have "keeps i b1 b'"
    by (auto simp: FoldAND_def bind_eq_Inr keeps_refl keeps_ReplaceW keeps_Replace_arg
        split: if_splits)
  with fc assms(2,3) show ?thesis by (rule after_FoldCommutative)
qed

lemma FoldOR_step:
  assumes "FoldOR b i w = Inr b'" "wf_block b" "i < length b"
  shows "step_ok i b b' \<and> normalized (b' ! i)"
proof -
  from assms(1) obtain c b1 where fc: "FoldCommutative b i w (\<lambda>x y. x OR y) = Inr (c, b1)"
    by (auto simp: FoldOR_def bind_eq_Inr)
  from FoldCommutative_wf [OF fc assms(2,3)] have w1: "wf_block b1" "i < length b1" by auto
  from assms(1) fc w1 have "keeps i b1 b'"
    by (auto simp: FoldOR_def bind_eq_Inr keeps_refl keeps_ReplaceW keeps_Replace_arg
        split: if_splits)
  with fc assms(2,3) show ?thesis by (rule after_FoldCommutative)
qed

lemma FoldEOR_step:
  assumes "FoldEOR b i w = Inr b'" "wf_block b" "i < length b"
  shows "step_ok i b b' \<and> normalized (b' ! i)"
proof -
  from assms(1) obtain c b1 where fc: "FoldCommutative b i w (\<lambda>x y. x XOR y) = Inr (c, b1)"
    by (auto simp: FoldEOR_def bind_eq_Inr)
  from FoldCommutative_wf [OF fc assms(2,3)] have w1: "wf_block b1" "i < length b1" by auto
  from assms(1) fc w1 have "keeps i b1 b'"
    by (auto simp: FoldEOR_def bind_eq_Inr keeps_refl keeps_ReplaceW keeps_Replace_arg
        split: if_splits)
  with fc assms(2,3) show ?thesis by (rule after_FoldCommutative)
qed

lemma FoldMultiply_step:
  assumes "FoldMultiply b i w = Inr b'" "wf_block b" "i < length b"
  shows "step_ok i b b' \<and> normalized (b' ! i)"
proof -
  from assms(1) obtain c b1 where fc: "FoldCommutative b i w (\<lambda>x y. x * y) = Inr (c, b1)"
    by (auto simp: FoldMultiply_def bind_eq_Inr)
  from FoldCommutative_wf [OF fc assms(2,3)] have w1: "wf_block b1" "i < length b1" by auto
  from assms(1) fc w1 have "keeps i b1 b'"
    by (auto simp: FoldMultiply_def bind_eq_Inr keeps_refl keeps_ReplaceW keeps_Replace_arg
        split: if_splits)
  with fc assms(2,3) show ?thesis by (rule after_FoldCommutative)
qed

lemmas fold_keeps = FoldLeastSignificantByte_keeps FoldLeastSignificantHalf_keeps
  FoldLeastSignificantWord_keeps FoldMostSignificantBit_keeps FoldSignExtendXToWord_keeps
  FoldSignExtendXToLong_keeps FoldZeroExtendXToWord_keeps FoldZeroExtendXToLong_keeps
  FoldNOT_keeps FoldByteReverse_keeps FoldDivide_keeps FoldMostSignificantWord_keeps

lemma FoldInst_step:
  assumes "FoldInst b i = Inr b'" "wf_block b" "i < length b"
  shows "step_ok i b b' \<and> (is_commutative (opcode (b ! i)) \<longrightarrow> normalized (b' ! i))"
  using assms
  by (cases "opcode (b ! i)")
    (auto simp: FoldInst_def is_commutative_def
      dest: fold_keeps [THEN keeps_step_ok] FoldShifts_step FoldAND_step FoldOR_step
        FoldEOR_step FoldMultiply_step
      intro: keeps_step_ok keeps_refl)

lemma FoldInsts_invariant:
  assumes "FoldInsts [i ..< length b] b = Inr b'" "wf_block b" "i \<le> length b"
    and "\<forall>j < i. is_commutative (opcode (b ! j)) \<longrightarrow> normalized (b ! j)"
  shows "length b' = length b \<and>
         (\<forall>j < length b. is_commutative (opcode (b' ! j)) \<longrightarrow> normalized (b' ! j))"
  using assms
proof (induction "length b - i" arbitrary: i b)
  case 0
  then show ?case by simp
next
  case (Suc k)
  then have i: "i < length b" by simp
  then have upt: "[i ..< length b] = i # [Suc i ..< length b]" by (simp add: upt_conv_Cons)
  with Suc.prems(1) obtain b1 where b1: "FoldInst b i = Inr b1"
    and rest: "FoldInsts [Suc i ..< length b] b1 = Inr b'"
    by (auto simp: bind_eq_Inr)
  from FoldInst_step [OF b1 Suc.prems(2) i]
  have s: "step_ok i b b1" "is_commutative (opcode (b ! i)) \<longrightarrow> normalized (b1 ! i)" by auto
  then have l: "length b1 = length b" and w: "wf_block b1"
    and same: "\<forall>j < i. b1 ! j = b ! j" and op: "opcode (b1 ! i) = opcode (b ! i)"
    by (auto simp: step_ok_def)
  have inv: "\<forall>j < Suc i. is_commutative (opcode (b1 ! j)) \<longrightarrow> normalized (b1 ! j)"
    using Suc.prems(4) same op s(2) by (auto simp: less_Suc_eq)
  from Suc.hyps(2) l have "k = length b1 - Suc i" by simp
  from Suc.hyps(1) [OF this] rest l w i inv show ?case by simp
qed

text \<open>
  C6. After one forward run of the pass over a block in SSA form, every commutative binary
  instruction (AND, OR, XOR, MUL), live or not, has two operands, and its operand in
  position 0 is an immediate only if its operand in position 1 is an immediate too.
\<close>

theorem ConstantPropagation_normalizes:
  assumes "wf_block b" and "ConstantPropagation b = Inr b'"
  shows "length b' = length b \<and>
         (\<forall>j < length b'. opcode (b' ! j) \<in> {And32, And64, Or32, Or64, Eor32, Eor64, Mul32, Mul64} \<longrightarrow>
            1 < length (args (b' ! j)) \<and>
            (IsImmediate (args (b' ! j) ! 0) \<longrightarrow> IsImmediate (args (b' ! j) ! 1)))"
  using FoldInsts_invariant [of 0 b b'] assms
  by (simp add: ConstantPropagation_def is_commutative_def normalized_def)

lemma norm_example_wf: "wf_block norm_example"
  by (simp add: norm_example_def wf_block_def wf_inst_def enumerate_eq_zip)

lemma norm_example_run:
  "ConstantPropagation norm_example = Inr
     [\<lparr>opcode = OtherOpcode 0, args = [], pseudo_ops = []\<rparr>,
      \<lparr>opcode = And32, args = [InstRef 0, U32 0xFF], pseudo_ops = []\<rparr>,
      \<lparr>opcode = And32, args = [InstRef 0, U32 0xF0], pseudo_ops = []\<rparr>,
      \<lparr>opcode = Mul64, args = [U64 3, U64 5], pseudo_ops = []\<rparr>]"
  by (simp add: ConstantPropagation_def norm_example_def upt_rec [of _ "numeral _"]
      upt_rec [of _ "Suc _"] FoldInst_def FoldAND_def FoldMultiply_def FoldCommutative_def GetArg_def SetArg_def ValueOf_def IsZero_def IsUnsignedImmediate_def ReplaceUsesWith_def Inst_ReplaceUsesWith_def subst_use_def)

theorem ConstantPropagation_normalizes_witness:
  "wf_block norm_example \<and>
   (\<exists>b'. ConstantPropagation norm_example = Inr b' \<and> length b' = 4 \<and>
      args (b' ! 1) = [InstRef 0, U32 0xFF] \<and> args (b' ! 2) = [InstRef 0, U32 0xF0] \<and>
      (\<forall>j < length b'. opcode (b' ! j) \<in> {And32, And64, Or32, Or64, Eor32, Eor64, Mul32, Mul64} \<longrightarrow>
         1 < length (args (b' ! j)) \<and>
         (IsImmediate (args (b' ! j) ! 0) \<longrightarrow> IsImmediate (args (b' ! j) ! 1))))"
  using ConstantPropagation_normalizes [OF norm_example_wf norm_example_run]
    norm_example_wf norm_example_run
  by simp

section \<open>Selecting a register\<close>

lemma use_count_emit [simp]: "use_count (emit s x) = use_count s"
  by (simp add: emit_def)

lemma use_count_set_LocInfo [simp]: "use_count (set_LocInfo s l i) = use_count s"
  by (simp add: set_LocInfo_def)

lemmas alloc_defs =
  UseHostLocReg_def UseHostLocReg_Inst_def UseScratchHostLocReg_def UseScratchHostLocReg_Inst_def
  ScratchHostLocReg_def SelectARegister_def in_state_def SpillRegister_def FindFreeSpill_def
  DefineValue_def Move_def Exchange_def MoveOutOfTheWay_def EmitMove_def EmitExchange_def
  ValueLocation_def deref_def DecrementRemainingUses_def HasUses_def EndOfAllocScope_def
  Info_EndOfAllocScope_def DEBUG_ASSERT_def ASSERT_def LocInfo_def set_LocInfo_def emit_def
  IsRegisterOccupied_def IsRegisterAllocated_def IsIdle_def IsLocked_def IsEmptyInfo_def
  IsScratch_def IsUse_def ContainsValue_def Lock_def AddValue_def empty_info_def
  IsSameHostLocClass_def HostLocIsGPR_def HostLocIsXMM_def HostLocIsRegister_def
  HostLocSpill_def all_hostlocs_def all_gprs_def all_xmms_def initial_def sysv_def
  LoadImmediateIntoHostLocReg_def HostLocToX64_def UseOpArg_def
  upt_rec [of _ "numeral _"] upt_rec [of _ "Suc _"]

lemma std_partition_props:
  "std_partition p xs = (ys, n) \<Longrightarrow>
     length ys = length xs \<and> set ys = set xs \<and> n \<le> length ys \<and>
     (\<forall>x \<in> set (take n ys). p x) \<and> (\<forall>x \<in> set (drop n ys). \<not> p x)"
proof (induction p xs arbitrary: ys n rule: std_partition.induct)
  case (1 p)
  then show ?case by simp
next
  case (2 p x xs)
  show ?case
  proof (cases "p x")
    case True
    with "2.prems" obtain zs m where r: "std_partition p xs = (zs, m)"
      and e: "ys = x # zs" "n = Suc m"
      by (auto split: prod.splits)
    from "2.IH"(1) [OF True r] True e show ?thesis by auto
  next
    case False
    show ?thesis
    proof (cases "dropWhile (\<lambda>y. \<not> p y) (rev xs)")
      case Nil
      then have a: "\<forall>y \<in> set xs. \<not> p y" by (auto simp: dropWhile_eq_Nil_conv)
      from "2.prems" have "ys = x # xs" "n = 0"
        by (simp_all add: False Nil del: dropWhile_eq_Nil_conv)
      with a False show ?thesis by auto
    next
      case (Cons y mid)
      with False "2.prems" obtain zs m where r: "std_partition p (rev mid) = (zs, m)"
        and e: "ys = y # zs @ x # rev (takeWhile (\<lambda>y. \<not> p y) (rev xs))" "n = Suc m"
        by (auto split: prod.splits)
      from "2.IH"(2) [OF False Cons r]
      have ih: "length zs = length mid" "set zs = set mid" "m \<le> length zs"
        "\<forall>x \<in> set (take m zs). p x" "\<forall>x \<in> set (drop m zs). \<not> p x" by auto
      have split: "rev xs = takeWhile (\<lambda>y. \<not> p y) (rev xs) @ y # mid"
        using Cons takeWhile_dropWhile_id [of "\<lambda>y. \<not> p y" "rev xs"] by simp
      have py: "p y" using Cons hd_dropWhile [of "\<lambda>y. \<not> p y" "rev xs"] by auto
      have bk: "\<forall>z \<in> set (takeWhile (\<lambda>y. \<not> p y) (rev xs)). \<not> p z"
        by (auto dest: set_takeWhileD)
      from split
      have len: "length xs = length (takeWhile (\<lambda>y. \<not> p y) (rev xs)) + Suc (length mid)"
        by (metis length_append length_rev length_Cons)
      from split have st: "set xs = set (takeWhile (\<lambda>y. \<not> p y) (rev xs)) \<union> insert y (set mid)"
        by (metis set_append set_rev list.simps(15))
      show ?thesis
        using ih py bk False len st by (auto simp: e)
    qed
  qed
qed

text \<open>The elements in front of the returned position are those that satisfy the predicate.\<close>

lemma std_partition_front:
  assumes "std_partition p xs = (ys, n)"
  shows "set (take n ys) = {x \<in> set xs. p x}"
proof -
  from std_partition_props [OF assms]
  have s: "set ys = set xs" and f: "\<forall>x \<in> set (take n ys). p x"
    and b: "\<forall>x \<in> set (drop n ys). \<not> p x" by auto
  have "set ys = set (take n ys) \<union> set (drop n ys)"
    by (metis append_take_drop_id set_append)
  with s f b show ?thesis by (auto dest: in_set_takeD)
qed

lemma std_partition_hd:
  assumes "std_partition p xs = (ys, n)" and "xs \<noteq> []"
  shows "hd ys \<in> set xs \<and> ((\<exists>x \<in> set xs. p x) \<longrightarrow> p (hd ys))"
proof -
  from std_partition_props [OF assms(1)] assms(2)
  have ne: "ys \<noteq> []" and s: "set ys = set xs" by auto
  have "p (hd ys)" if "\<exists>x \<in> set xs. p x"
  proof -
    from that std_partition_front [OF assms(1)] have "set (take n ys) \<noteq> {}" by auto
    then have "take n ys \<noteq> []" by (metis empty_set)
    then have "hd (take n ys) \<in> set (take n ys)" by (rule hd_in_set)
    moreover from \<open>take n ys \<noteq> []\<close> have "hd (take n ys) = hd ys" by (cases ys; cases n) auto
    ultimately show ?thesis using std_partition_front [OF assms(1)] by auto
  qed
  with ne s show ?thesis by (auto dest: hd_in_set)
qed

lemma SelectARegister_cases:
  obtains cs n cs' n' where
    "std_partition (\<lambda>loc. \<not> IsRegisterAllocated s loc) ds = (cs, n)"
    "std_partition (\<lambda>loc. \<not> IsRegisterOccupied s loc) (take n cs) = (cs', n')"
    "SelectARegister s ds =
       (if take n cs = [] then Inl (AllCandidatesAllocated, s) else Inr (hd cs'))"
proof -
  obtain cs n where 1: "std_partition (\<lambda>loc. \<not> IsRegisterAllocated s loc) ds = (cs, n)"
    by (cases "std_partition (\<lambda>loc. \<not> IsRegisterAllocated s loc) ds")
  obtain cs' n' where
    2: "std_partition (\<lambda>loc. \<not> IsRegisterOccupied s loc) (take n cs) = (cs', n')"
    by (cases "std_partition (\<lambda>loc. \<not> IsRegisterOccupied s loc) (take n cs)")
  from 1 2 have "SelectARegister s ds =
       (if take n cs = [] then Inl (AllCandidatesAllocated, s) else Inr (hd cs'))"
    by (simp add: SelectARegister_def ASSERT_def bind_def)
  with 1 2 show ?thesis by (rule that)
qed

lemma SelectARegister_Inr:
  assumes "SelectARegister s ds = Inr l"
  shows "l \<in> set ds \<and> \<not> IsLocked (LocInfo s l) \<and>
         ((\<exists>l' \<in> set ds. \<not> IsLocked (LocInfo s l') \<and> \<not> IsRegisterOccupied s l') \<longrightarrow>
            \<not> IsRegisterOccupied s l)"
proof -
  obtain cs n cs' n' where
    1: "std_partition (\<lambda>loc. \<not> IsRegisterAllocated s loc) ds = (cs, n)"
    and 2: "std_partition (\<lambda>loc. \<not> IsRegisterOccupied s loc) (take n cs) = (cs', n')"
    and 3: "SelectARegister s ds =
       (if take n cs = [] then Inl (AllCandidatesAllocated, s) else Inr (hd cs'))"
    by (rule SelectARegister_cases)
  from 3 assms have ne: "take n cs \<noteq> []" and l: "l = hd cs'"
    by (auto split: if_splits)
  from std_partition_hd [OF 2 ne] l
  have "l \<in> set (take n cs)"
    and "(\<exists>x \<in> set (take n cs). \<not> IsRegisterOccupied s x) \<longrightarrow> \<not> IsRegisterOccupied s l"
    by auto
  then show ?thesis
    by (auto simp: std_partition_front [OF 1] IsRegisterAllocated_def IsIdle_def IsLocked_def)
qed

lemma SelectARegister_Inl:
  "(\<exists>e. SelectARegister s ds = Inl e) \<longleftrightarrow> (\<forall>l \<in> set ds. IsLocked (LocInfo s l))"
proof -
  obtain cs n cs' n' where
    1: "std_partition (\<lambda>loc. \<not> IsRegisterAllocated s loc) ds = (cs, n)"
    and 3: "SelectARegister s ds =
       (if take n cs = [] then Inl (AllCandidatesAllocated, s) else Inr (hd cs'))"
    by (rule SelectARegister_cases)
  have "take n cs = [] \<longleftrightarrow> set (take n cs) = {}" by simp
  also have "\<dots> \<longleftrightarrow> (\<forall>l \<in> set ds. IsLocked (LocInfo s l))"
    by (auto simp: std_partition_front [OF 1] IsRegisterAllocated_def IsIdle_def IsLocked_def)
  finally show ?thesis by (simp add: 3)
qed

lemma SelectARegister_Inl_which:
  "SelectARegister s ds = Inl e \<Longrightarrow> e = (AllCandidatesAllocated, s)"
  by (rule SelectARegister_cases [of s ds]) (auto split: if_splits)

text \<open>
  C7. For every list of desired locations, a location \<open>SelectARegister\<close> returns is an
  entry of the list that is not locked, and it is unoccupied whenever some entry of the
  list is unlocked and unoccupied; \<open>SelectARegister\<close> fails exactly when every entry of
  the list is locked, and then by the assertion "All candidate registers have already been
  allocated", on the state as it was given.
\<close>

theorem SelectARegister_never_locked:
  "(\<forall>l. SelectARegister s ds = Inr l \<longrightarrow>
      l \<in> set ds \<and> \<not> IsLocked (LocInfo s l) \<and>
      ((\<exists>l' \<in> set ds. \<not> IsLocked (LocInfo s l') \<and> \<not> IsRegisterOccupied s l') \<longrightarrow>
         \<not> IsRegisterOccupied s l)) \<and>
   ((\<exists>e. SelectARegister s ds = Inl e) \<longleftrightarrow> (\<forall>l \<in> set ds. IsLocked (LocInfo s l))) \<and>
   (\<forall>e. SelectARegister s ds = Inl e \<longrightarrow> e = (AllCandidatesAllocated, s))"
  using SelectARegister_Inr [of s ds] SelectARegister_Inl [of s ds]
    SelectARegister_Inl_which [of s ds]
  by blast

lemma select_example_run: "SelectARegister select_example [RAX, RCX, RDX] = Inr RDX"
  by (simp add: SelectARegister_def ASSERT_def bind_def select_example_def
      IsRegisterAllocated_def IsRegisterOccupied_def IsIdle_def IsEmptyInfo_def LocInfo_def
      empty_info_def)

lemma select_example_locked:
  "SelectARegister select_example [RAX] = Inl (AllCandidatesAllocated, select_example)"
  by (simp add: SelectARegister_def ASSERT_def bind_def select_example_def
      IsRegisterAllocated_def IsRegisterOccupied_def IsIdle_def IsEmptyInfo_def LocInfo_def
      empty_info_def)

theorem SelectARegister_never_locked_witness:
  "SelectARegister select_example [RAX, RCX, RDX] = Inr RDX \<and>
   \<not> IsLocked (LocInfo select_example RDX) \<and> \<not> IsRegisterOccupied select_example RDX \<and>
   IsLocked (LocInfo select_example RAX) \<and>
   SelectARegister select_example [RAX] = Inl (AllCandidatesAllocated, select_example)"
proof -
  from SelectARegister_never_locked [of select_example "[RAX, RCX, RDX]"] select_example_run
  have "\<not> IsLocked (LocInfo select_example RDX)"
    and "(\<exists>l' \<in> set [RAX, RCX, RDX]. \<not> IsLocked (LocInfo select_example l') \<and>
           \<not> IsRegisterOccupied select_example l') \<longrightarrow>
         \<not> IsRegisterOccupied select_example RDX"
    by blast+
  moreover have "\<not> IsLocked (LocInfo select_example RDX) \<and>
      \<not> IsRegisterOccupied select_example RDX"
    by (simp add: select_example_def IsLocked_def IsRegisterOccupied_def IsEmptyInfo_def
        LocInfo_def empty_info_def)
  moreover have "IsLocked (LocInfo select_example RAX)"
    by (simp add: select_example_def IsLocked_def LocInfo_def)
  ultimately show ?thesis using select_example_run select_example_locked by simp
qed

section \<open>A value without remaining uses\<close>

lemma DEBUG_ASSERT_cases:
  "DEBUG_ASSERT cfg c e = (if debug_asserts cfg \<and> \<not> c then Inl e else Inr ())"
  by (simp add: DEBUG_ASSERT_def ASSERT_def)

lemma UseScratchHostLocReg_Inst_no_uses:
  assumes "use_count s i = 0"
  shows "UseScratchHostLocReg_Inst cfg s i ds =
           Inl (if debug_asserts cfg \<and> \<not> list_all HostLocIsRegister ds then AssertionFailed
                else if debug_asserts cfg \<and> ValueLocation cfg s i = None then UseNotDefined
                else RanOutOfUses, s)"
  using assms
  by (simp add: UseScratchHostLocReg_Inst_def DEBUG_ASSERT_cases ASSERT_def HasUses_def)

text \<open>
  C10, as amended. \<open>UseScratchHostLocReg\<close> on a non-immediate value whose remaining-use
  count is zero fails by an assertion on the state it was given: when it aborts nothing
  has been changed and no code has been emitted, and no location is returned. The
  assertion is "use_inst ran out of uses", unless debug assertions are compiled in and one
  of the two that stand before it fails first: the unnamed one when a desired location is
  no register, "use_inst has not been defined" when the value is resident nowhere.
\<close>

theorem UseScratchHostLocReg_no_uses:
  assumes "use_count s i = 0"
  shows "UseScratchHostLocReg cfg s (InstRef i) ds =
           Inl (if debug_asserts cfg \<and> \<not> list_all HostLocIsRegister ds then AssertionFailed
                else if debug_asserts cfg \<and> ValueLocation cfg s i = None then UseNotDefined
                else RanOutOfUses, s)"
  using UseScratchHostLocReg_Inst_no_uses [OF assms, of cfg ds]
  by (simp add: UseScratchHostLocReg_def)

text \<open>
  A value with one use is defined in RAX and read there by the next instruction, which
  leaves it locked in RAX with no use remaining.
\<close>

lemma no_uses_example_reached:
  "run sysv [OpScratchHostLocReg [RAX], OpDefineValue 0 RAX, OpEndOfAllocScope,
             OpUseHostLocReg (InstRef 0) [RAX]] (initial (\<lambda>_. 1)) = Inr no_uses_example"
  by (simp add: alloc_defs Let_def no_uses_example_def fun_eq_iff)

lemma no_uses_example_located: "ValueLocation sysv no_uses_example 0 = Some RAX"
  by (simp add: ValueLocation_def all_hostlocs_def all_gprs_def no_uses_example_def
      ContainsValue_def LocInfo_def)

theorem UseScratchHostLocReg_no_uses_witness:
  "use_count no_uses_example 0 = 0 \<and>
   UseScratchHostLocReg sysv no_uses_example (InstRef 0) [RCX] =
     Inl (RanOutOfUses, no_uses_example)"
proof -
  have u: "use_count no_uses_example 0 = 0" by (simp add: no_uses_example_def)
  have r: "list_all HostLocIsRegister [RCX]"
    by (simp add: HostLocIsRegister_def HostLocIsGPR_def all_gprs_def)
  from UseScratchHostLocReg_no_uses [OF u, of sysv "[RCX]"] r no_uses_example_located u
  show ?thesis by simp
qed

text \<open>
  With debug assertions compiled in: a value without uses is defined in RAX and evicted at
  the end of the scope, which leaves the allocator as it was after \<open>Reset\<close>. Asking for
  the value then fails by "use_inst has not been defined", not by "use_inst ran out of
  uses".
\<close>

theorem UseScratchHostLocReg_evicted_value:
  "debug_asserts sysv \<and>
   run sysv [OpScratchHostLocReg [RAX], OpDefineValue 0 RAX, OpEndOfAllocScope]
     (initial (\<lambda>_. 0)) = Inr (initial (\<lambda>_. 0)) \<and>
   use_count (initial (\<lambda>_. 0)) 0 = 0 \<and>
   UseScratchHostLocReg sysv (initial (\<lambda>_. 0)) (InstRef 0) [RCX] =
     Inl (UseNotDefined, initial (\<lambda>_. 0)) \<and>
   UseScratchHostLocReg sysv (initial (\<lambda>_. 0)) (InstRef 0) [RCX] \<noteq>
     Inl (RanOutOfUses, initial (\<lambda>_. 0))"
proof -
  have 1: "run sysv [OpScratchHostLocReg [RAX], OpDefineValue 0 RAX, OpEndOfAllocScope]
     (initial (\<lambda>_. 0)) = Inr (initial (\<lambda>_. 0))"
    by (simp add: alloc_defs Let_def fun_eq_iff)
  have 2: "UseScratchHostLocReg sysv (initial (\<lambda>_. 0)) (InstRef 0) [RCX] =
     Inl (UseNotDefined, initial (\<lambda>_. 0))"
    by (simp add: alloc_defs Let_def)
  have 3: "debug_asserts sysv" "use_count (initial (\<lambda>_. 0)) 0 = 0"
    by (simp_all add: sysv_def initial_def)
  from 1 2 3 show ?thesis by simp
qed

section \<open>Running the allocator on examples\<close>

text \<open>
  A value with three remaining uses is defined in RAX; the next instruction reads it in
  RAX, which locks RAX, and reads it once more in RCX. The second read finds the value
  locked where it is, outside the desired list, and falls back to the scratch path: the
  count has been decremented once already and is decremented again there.
\<close>

lemma UseHostLocReg_fallback_decrements_twice:
  "\<exists>s1 loc s2.
     run sysv [OpScratchHostLocReg [RAX], OpDefineValue 0 RAX, OpEndOfAllocScope,
               OpUseHostLocReg (InstRef 0) [RAX]] (initial (\<lambda>_. 3)) = Inr s1 \<and>
     use_count s1 0 = 2 \<and>
     UseHostLocReg sysv s1 (InstRef 0) [RCX] = Inr (loc, s2) \<and>
     use_count s2 0 = 0"
  by (simp add: alloc_defs Let_def)

text \<open>
  With two remaining uses, exactly the two reads of that instruction, the second read
  fails: the count is zero when the scratch path checks it.
\<close>

lemma UseHostLocReg_fallback_runs_out:
  "\<exists>s'. run sysv [OpScratchHostLocReg [RAX], OpDefineValue 0 RAX, OpEndOfAllocScope,
             OpUseHostLocReg (InstRef 0) [RAX], OpUseHostLocReg (InstRef 0) [RCX]]
     (initial (\<lambda>_. 2)) = Inl (RanOutOfUses, s')"
  by (simp add: alloc_defs Let_def)

text \<open>
  Two values are defined in XMM0 and XMM1. Reading the first in XMM1 selects XMM1, which
  is occupied and of the same class as XMM0, and asks for an exchange of the two.
\<close>

lemma UseHostLocReg_exchanges_XMM:
  "\<exists>s'. run sysv [OpScratchHostLocReg [XMM0], OpDefineValue 0 XMM0, OpEndOfAllocScope,
             OpScratchHostLocReg [XMM1], OpDefineValue 1 XMM1, OpEndOfAllocScope,
             OpUseHostLocReg (InstRef 0) [XMM1]]
     (initial (\<lambda>_. 2)) = Inl (ExchangingXMM, s')"
  by (simp add: alloc_defs Let_def)

text \<open>
  Under the System V description, where the return register RAX is one of the caller-saved
  registers, \<open>HostCall\<close> fails from the state after \<open>Reset\<close>: RAX is reserved first and
  is then reserved again as one of the other caller-saved registers.
\<close>

lemma HostCall_sysv_fails:
  "\<exists>s'. HostCall sysv (initial (\<lambda>_. 0)) None Empty Empty Empty Empty =
          Inl (AllCandidatesAllocated, s')"
  by (simp add: alloc_defs Let_def HostCall_def other_caller_save_def args_hostloc_def
      erase_first_def)

section \<open>Every value in at most one location\<close>

lemma resident_vals: "resident s v \<longleftrightarrow> (\<exists>l. v \<in> vals s l)"
  by (simp add: resident_def vals_def ContainsValue_def LocInfo_def)

lemma at_most_one_vals:
  "at_most_one_HostLoc s \<longleftrightarrow> (\<forall>v l l'. v \<in> vals s l \<longrightarrow> v \<in> vals s l' \<longrightarrow> l = l')"
  by (simp add: at_most_one_HostLoc_def vals_def ContainsValue_def LocInfo_def)

lemma moved_refl [simp]: "moved s s"
  by (simp add: moved_def)

lemma moved_trans: "moved s s1 \<Longrightarrow> moved s1 s2 \<Longrightarrow> moved s s2"
  by (simp add: moved_def)

lemma moved_same_vals: "vals s' = vals s \<Longrightarrow> moved s s'"
  by (simp add: moved_def resident_vals at_most_one_vals)

lemma vals_emit [simp]: "vals (emit s x) = vals s"
  by (simp add: vals_def emit_def fun_eq_iff)

lemma vals_lock [simp]: "vals (set_LocInfo s l (Lock (LocInfo s l))) = vals s"
  by (simp add: vals_def set_LocInfo_def Lock_def LocInfo_def fun_eq_iff)

lemma vals_set_LocInfo: "vals (set_LocInfo s l i) = (vals s)(l := set (values_held i))"
  by (simp add: vals_def set_LocInfo_def fun_eq_iff)

lemma vals_Decrement: "DecrementRemainingUses s v = Inr s' \<Longrightarrow> vals s' = vals s"
  by (auto simp: DecrementRemainingUses_def vals_def fun_eq_iff split: if_splits)

lemma vals_EmitMove: "EmitMove s a b = Inr s' \<Longrightarrow> vals s' = vals s"
  by (auto simp: EmitMove_def split: if_splits)

lemma vals_EmitExchange: "EmitExchange s a b = Inr s' \<Longrightarrow> vals s' = vals s"
  by (auto simp: EmitExchange_def split: if_splits)

lemma LocInfo_EmitMove: "EmitMove s a b = Inr s' \<Longrightarrow> LocInfo s' = LocInfo s"
  by (auto simp: EmitMove_def emit_def LocInfo_def fun_eq_iff split: if_splits)

lemma vals_LoadImmediate:
  "LoadImmediateIntoHostLocReg s imm l = Inr (r, s') \<Longrightarrow> vals s' = vals s"
  by (auto simp: LoadImmediateIntoHostLocReg_def bind_eq_Inr split: if_splits)

lemma vals_empty_iff: "vals s l = {} \<longleftrightarrow> values_held (LocInfo s l) = []"
  by (simp add: vals_def LocInfo_def)

lemma IsEmptyInfo_vals: "IsEmptyInfo (LocInfo s l) \<Longrightarrow> vals s l = {}"
  by (simp add: IsEmptyInfo_def vals_def LocInfo_def)

text \<open>The contents of \<open>from\<close> go to the empty \<open>to\<close>, and \<open>from\<close> is cleared.\<close>

lemma moved_transfer:
  assumes "vals s to = {}" and "vals s' = (vals s)(to := vals s from, from := {})"
  shows "moved s s'"
proof (cases "to = from")
  case True
  with assms have "vals s' = vals s" by (auto simp: fun_eq_iff)
  then show ?thesis by (rule moved_same_vals)
next
  case False
  have r: "resident s' v = resident s v" for v
  proof
    assume "resident s' v"
    then obtain l where "v \<in> vals s' l" by (auto simp: resident_vals)
    with assms False show "resident s v"
      by (auto simp: resident_vals split: if_splits)
  next
    assume "resident s v"
    then obtain l where l: "v \<in> vals s l" by (auto simp: resident_vals)
    show "resident s' v"
    proof (cases "l = from")
      case True
      with l assms False have "v \<in> vals s' to" by simp
      then show ?thesis by (auto simp: resident_vals)
    next
      case False
      with l assms have "l \<noteq> to" by auto
      with l assms False \<open>l \<noteq> from\<close> have "v \<in> vals s' l" by simp
      then show ?thesis by (auto simp: resident_vals)
    qed
  qed
  have "at_most_one_HostLoc s'" if a: "at_most_one_HostLoc s"
    unfolding at_most_one_vals
  proof (intro allI impI)
    fix v l l' assume 1: "v \<in> vals s' l" and 2: "v \<in> vals s' l'"
    from 1 assms False have l: "(l = to \<and> v \<in> vals s from) \<or> (l \<noteq> to \<and> l \<noteq> from \<and> v \<in> vals s l)"
      by (auto split: if_splits)
    from 2 assms False have l': "(l' = to \<and> v \<in> vals s from) \<or> (l' \<noteq> to \<and> l' \<noteq> from \<and> v \<in> vals s l')"
      by (auto split: if_splits)
    from l l' a show "l = l'" by (auto simp: at_most_one_vals)
  qed
  with r show ?thesis by (simp add: moved_def)
qed

text \<open>The contents of two locations are swapped.\<close>

lemma moved_swap:
  assumes "vals s' = (vals s)(a := vals s b, b := vals s a)"
  shows "moved s s'"
proof -
  have v: "vals s' l = vals s (if l = a then b else if l = b then a else l)" for l
    using assms by auto
  have r: "resident s' v = resident s v" for v
  proof
    assume "resident s' v"
    then show "resident s v" unfolding resident_vals v by blast
  next
    assume "resident s v"
    then obtain l where l: "v \<in> vals s l" by (auto simp: resident_vals)
    then have "v \<in> vals s' (if l = a then b else if l = b then a else l)"
      unfolding v by auto
    then show "resident s' v" unfolding resident_vals by blast
  qed
  have "at_most_one_HostLoc s'" if a: "at_most_one_HostLoc s"
    unfolding at_most_one_vals
  proof (intro allI impI)
    fix x l l' assume "x \<in> vals s' l" "x \<in> vals s' l'"
    then have "x \<in> vals s (if l = a then b else if l = b then a else l)"
      "x \<in> vals s (if l' = a then b else if l' = b then a else l')"
      unfolding v by auto
    with a have "(if l = a then b else if l = b then a else l)
        = (if l' = a then b else if l' = b then a else l')"
      unfolding at_most_one_vals by blast
    then show "l = l'" by (auto split: if_splits)
  qed
  with r show ?thesis by (simp add: moved_def)
qed

lemma FindFreeSpill_empty:
  "FindFreeSpill cfg s = Inr l \<Longrightarrow> IsEmptyInfo (LocInfo s l)"
  by (auto simp: FindFreeSpill_def IsRegisterOccupied_def split: option.splits
      dest!: find_Some_iff [THEN iffD1])

lemma SpillRegister_moved:
  assumes "SpillRegister cfg s loc = Inr s'"
  shows "moved s s' \<and> vals s' loc = {}"
proof -
  from assms obtain new_loc s1 where
    f: "FindFreeSpill cfg s = Inr new_loc" and e: "EmitMove s new_loc loc = Inr s1"
    and s': "s' = set_LocInfo (set_LocInfo s1 new_loc (LocInfo s1 loc)) loc empty_info"
    by (auto simp: SpillRegister_def bind_eq_Inr ASSERT_def split: if_splits)
  from vals_EmitMove [OF e] have v1: "vals s1 = vals s" .
  from FindFreeSpill_empty [OF f] have "vals s new_loc = {}" by (rule IsEmptyInfo_vals)
  moreover have "vals s' = (vals s)(new_loc := vals s loc, loc := {})"
    by (simp add: s' vals_set_LocInfo v1 [symmetric] empty_info_def) (simp add: vals_def LocInfo_def)
  ultimately have "moved s s'" by (rule moved_transfer)
  moreover have "vals s' loc = {}" by (simp add: s' vals_set_LocInfo empty_info_def)
  ultimately show ?thesis by simp
qed

lemma Move_moved:
  assumes "Move s to from = Inr s'"
  shows "moved s s'"
proof (cases "IsEmptyInfo (LocInfo s from)")
  case True
  with assms show ?thesis by (auto simp: Move_def bind_eq_Inr ASSERT_def split: if_splits)
next
  case False
  with assms have to: "IsEmptyInfo (LocInfo s to)"
    and e: "EmitMove (set_LocInfo (set_LocInfo s to (LocInfo s from)) from empty_info) to from = Inr s'"
    by (auto simp: Move_def bind_eq_Inr ASSERT_def split: if_splits)
  from vals_EmitMove [OF e]
  have "vals s' = (vals s)(to := vals s from, from := {})"
    by (simp add: vals_set_LocInfo empty_info_def) (simp add: vals_def LocInfo_def)
  with IsEmptyInfo_vals [OF to] show ?thesis by (rule moved_transfer)
qed

lemma Exchange_moved:
  assumes "Exchange s a b = Inr s'"
  shows "moved s s'"
proof -
  from assms consider "Move s a b = Inr s'" | "Move s b a = Inr s'"
    | "EmitExchange (set_LocInfo (set_LocInfo s a (LocInfo s b)) b (LocInfo s a)) a b = Inr s'"
    by (auto simp: Exchange_def bind_eq_Inr ASSERT_def split: if_splits)
  then show ?thesis
  proof cases
    case 3
    from vals_EmitExchange [OF 3]
    have "vals s' = (vals s)(a := vals s b, b := vals s a)"
      by (simp add: vals_set_LocInfo) (simp add: vals_def LocInfo_def)
    then show ?thesis by (rule moved_swap)
  qed (auto dest: Move_moved)
qed

lemma MoveOutOfTheWay_moved:
  "MoveOutOfTheWay cfg s reg = Inr s' \<Longrightarrow> moved s s'"
  by (auto simp: MoveOutOfTheWay_def bind_eq_Inr ASSERT_def split: if_splits
      dest: SpillRegister_moved)

lemma spill_if_occupied:
  assumes "(if IsRegisterOccupied s l then SpillRegister cfg s l else Inr s) = Inr s1"
  shows "moved s s1 \<and> vals s1 l = {}"
proof (cases "IsRegisterOccupied s l")
  case True
  with assms show ?thesis by (auto dest: SpillRegister_moved)
next
  case False
  with assms show ?thesis by (auto simp: IsRegisterOccupied_def IsEmptyInfo_vals)
qed

lemma ScratchHostLocReg_moved:
  assumes "ScratchHostLocReg cfg s ds = Inr (l, s')"
  shows "moved s s'"
proof -
  from assms obtain s1 where
    sp: "(if IsRegisterOccupied s l then SpillRegister cfg s l else Inr s) = Inr s1"
    and s': "s' = set_LocInfo s1 l (Lock (LocInfo s1 l))"
    by (auto simp: ScratchHostLocReg_def bind_eq_Inr Let_def)
  from spill_if_occupied [OF sp] have "moved s s1" by simp
  moreover have "moved s1 s'" by (rule moved_same_vals) (simp add: s')
  ultimately show ?thesis by (rule moved_trans)
qed

lemma UseScratchHostLocReg_Inst_moved:
  assumes "UseScratchHostLocReg_Inst cfg s i ds = Inr (l, s')"
  shows "moved s s'"
proof -
  from assms obtain cur new s1 where
    sp: "(if IsRegisterOccupied s new then SpillRegister cfg s new else Inr s) = Inr s1"
    and rest: "(if HostLocIsSpill cur then
         bind (EmitMove s1 new cur) (\<lambda>s2.
           let s3 = set_LocInfo s2 new (Lock (LocInfo s2 new)) in
           bind (DecrementRemainingUses s3 i) (\<lambda>s4.
           bind (DEBUG_ASSERT cfg (IsScratch (LocInfo s4 new)) (AssertionFailed, s4)) (\<lambda>_.
             Inr (new, s4))))
       else if HostLocIsRegister cur then
         bind (ASSERT (IsIdle (LocInfo s1 cur) \<or> IsUse (LocInfo s1 cur))
                 (AssertionFailed, s1)) (\<lambda>_.
         bind (if cur \<noteq> new then EmitMove s1 new cur
               else bind (ASSERT (IsIdle (LocInfo s1 cur)) (AssertionFailed, s1))
                      (\<lambda>_. Inr s1)) (\<lambda>s2.
           let s3 = set_LocInfo s2 new empty_info;
               s4 = set_LocInfo s3 new (Lock (LocInfo s3 new))
           in
           bind (DecrementRemainingUses s4 i) (\<lambda>s5.
           bind (DEBUG_ASSERT cfg (IsScratch (LocInfo s5 new)) (AssertionFailed, s5)) (\<lambda>_.
             Inr (new, s5)))))
       else Inl (InvalidCurrentLocation, s1)) = Inr (l, s')"
    by (auto simp: UseScratchHostLocReg_Inst_def bind_eq_Inr)
  from spill_if_occupied [OF sp] have m1: "moved s s1" and e: "vals s1 new = {}" by auto
  have "vals s' = vals s1"
  proof (cases "HostLocIsSpill cur")
    case True
    with rest obtain s2 where "EmitMove s1 new cur = Inr s2"
      "DecrementRemainingUses (set_LocInfo s2 new (Lock (LocInfo s2 new))) i = Inr s'"
      by (auto simp: bind_eq_Inr Let_def)
    then show ?thesis by (auto dest!: vals_Decrement vals_EmitMove)
  next
    case False
    with rest obtain s2 where s2: "vals s2 = vals s1"
      and d: "DecrementRemainingUses
         (set_LocInfo (set_LocInfo s2 new empty_info) new
            (Lock (LocInfo (set_LocInfo s2 new empty_info) new))) i = Inr s'"
      by (auto simp: bind_eq_Inr Let_def ASSERT_def split: if_splits dest: vals_EmitMove)
    from vals_Decrement [OF d] have "vals s' = (vals s2)(new := {})"
      by (simp add: vals_def empty_info_def Lock_def LocInfo_def set_LocInfo_def fun_eq_iff)
    with s2 e show ?thesis by (auto simp: fun_eq_iff)
  qed
  then have "moved s1 s'" by (rule moved_same_vals)
  with m1 show ?thesis by (rule moved_trans)
qed

lemma UseHostLocReg_Inst_moved:
  assumes "UseHostLocReg_Inst cfg s i ds = Inr (l, s')"
  shows "moved s s'"
proof -
  from assms obtain s1 cur where d: "DecrementRemainingUses s i = Inr s1"
    and rest: "(if cur \<in> set ds then
         Inr (cur, set_LocInfo s1 cur (Lock (LocInfo s1 cur)))
       else if IsLocked (LocInfo s1 cur) then UseScratchHostLocReg_Inst cfg s1 i ds
       else
         bind (SelectARegister s1 ds) (\<lambda>dest.
         bind (if IsSameHostLocClass dest cur then Exchange s1 dest cur
               else bind (MoveOutOfTheWay cfg s1 dest) (\<lambda>s2. Move s2 dest cur)) (\<lambda>s3.
           Inr (dest, set_LocInfo s3 dest (Lock (LocInfo s3 dest)))))) = Inr (l, s')"
    by (auto simp: UseHostLocReg_Inst_def bind_eq_Inr Let_def)
  from vals_Decrement [OF d] have m1: "moved s s1" by (rule moved_same_vals)
  have "moved s1 s'"
  proof (cases "cur \<in> set ds")
    case True
    with rest show ?thesis by (auto intro: moved_same_vals)
  next
    case False
    show ?thesis
    proof (cases "IsLocked (LocInfo s1 cur)")
      case True
      with False rest show ?thesis by (auto dest: UseScratchHostLocReg_Inst_moved)
    next
      case unlocked: False
      with False rest obtain dest s3 where
        mv: "(if IsSameHostLocClass dest cur then Exchange s1 dest cur
              else bind (MoveOutOfTheWay cfg s1 dest) (\<lambda>s2. Move s2 dest cur)) = Inr s3"
        and s': "s' = set_LocInfo s3 dest (Lock (LocInfo s3 dest))"
        by (auto simp: bind_eq_Inr)
      from mv have "moved s1 s3"
        by (auto simp: bind_eq_Inr split: if_splits
            dest: Exchange_moved MoveOutOfTheWay_moved Move_moved intro: moved_trans)
      moreover have "moved s3 s'" by (rule moved_same_vals) (simp add: s')
      ultimately show ?thesis by (rule moved_trans)
    qed
  qed
  with m1 show ?thesis by (rule moved_trans)
qed

lemma UseScratchHostLocReg_moved:
  "UseScratchHostLocReg cfg s u ds = Inr (l, s') \<Longrightarrow> moved s s'"
  by (auto simp: UseScratchHostLocReg_def bind_eq_Inr split: if_splits
      dest: UseScratchHostLocReg_Inst_moved ScratchHostLocReg_moved
      dest!: vals_LoadImmediate intro: moved_trans moved_same_vals)

lemma UseHostLocReg_moved:
  "UseHostLocReg cfg s u ds = Inr (l, s') \<Longrightarrow> moved s s'"
  by (auto simp: UseHostLocReg_def bind_eq_Inr split: if_splits
      dest: UseHostLocReg_Inst_moved ScratchHostLocReg_moved
      dest!: vals_LoadImmediate intro: moved_trans moved_same_vals)

lemma UseOpArg_moved:
  "UseOpArg cfg s u ds = Inr (x, s') \<Longrightarrow> moved s s'"
  by (auto simp: UseOpArg_def bind_eq_Inr split: if_splits dest: UseHostLocReg_Inst_moved)

lemma moved_defined: "moved s s1 \<Longrightarrow> defined d s1 s2 \<Longrightarrow> defined d s s2"
  by (auto simp: moved_def defined_def)

lemma defined_moved: "defined d s s1 \<Longrightarrow> moved s1 s2 \<Longrightarrow> defined d s s2"
  by (auto simp: moved_def defined_def)

lemma defined_add:
  assumes "vals s' = (vals s)(l := insert d (vals s l))"
  shows "defined d s s'"
proof -
  have r: "resident s' v = (v = d \<or> resident s v)" for v
    unfolding resident_vals assms by (auto split: if_splits)
  have "at_most_one_HostLoc s'" if n: "\<not> resident s d" and a: "at_most_one_HostLoc s"
    unfolding at_most_one_vals
  proof (intro allI impI)
    fix v k k' assume 1: "v \<in> vals s' k" and 2: "v \<in> vals s' k'"
    show "k = k'"
    proof (cases "v = d")
      case True
      with n have "\<forall>m. d \<notin> vals s m" by (simp add: resident_vals)
      with 1 2 True show ?thesis unfolding assms by (auto split: if_splits)
    next
      case False
      with 1 2 have "v \<in> vals s k" "v \<in> vals s k'" unfolding assms by (auto split: if_splits)
      with a show ?thesis by (auto simp: at_most_one_vals)
    qed
  qed
  with r show ?thesis by (simp add: defined_def)
qed

lemma DefineValue_defined: "DefineValue cfg s d l = Inr s' \<Longrightarrow> defined d s s'"
  by (rule defined_add)
    (auto simp: DefineValue_def bind_eq_Inr vals_set_LocInfo AddValue_def vals_def LocInfo_def)

lemma RegisterAddDef_defined:
  assumes "RegisterAddDef cfg s d u = Inr s'"
  shows "defined d s s'"
proof (cases "IsImmediate u")
  case True
  with assms obtain l s1 s2 r where "ScratchHostLocReg cfg s (any_gpr cfg) = Inr (l, s1)"
    "DefineValue cfg s1 d l = Inr s2" "LoadImmediateIntoHostLocReg s2 u l = Inr (r, s')"
    by (auto simp: RegisterAddDef_def bind_eq_Inr)
  then have "moved s s1" "defined d s1 s2" "moved s2 s'"
    by (auto dest: ScratchHostLocReg_moved DefineValue_defined vals_LoadImmediate
        intro: moved_same_vals)
  then show ?thesis by (blast intro: moved_defined defined_moved)
next
  case False
  with assms obtain i s1 l where "DecrementRemainingUses s i = Inr s1"
    "DefineValue cfg s1 d l = Inr s'"
    by (auto simp: RegisterAddDef_def bind_eq_Inr)
  then have "moved s s1" "defined d s1 s'"
    by (auto dest: vals_Decrement DefineValue_defined intro: moved_same_vals)
  then show ?thesis by (rule moved_defined)
qed

lemma UseDefOpArgHostLocReg_defined:
  assumes "UseDefOpArgHostLocReg cfg s u d ds = Inr (r, s')"
  shows "defined d s s'"
proof -
  from assms obtain x s1 l s2 where "UseOpArg cfg s u (any_gpr cfg) = Inr (x, s1)"
    "ScratchHostLocReg cfg s1 ds = Inr (l, s2)" "DefineValue cfg s2 d l = Inr s'"
    by (auto simp: UseDefOpArgHostLocReg_def IsLastUse_def bind_eq_Inr Let_def split: if_splits)
  then have "moved s s1" "moved s1 s2" "defined d s2 s'"
    by (auto dest: UseOpArg_moved ScratchHostLocReg_moved DefineValue_defined)
  then show ?thesis by (blast intro: moved_defined moved_trans)
qed

lemma HostCall_args_moved: "HostCall_args cfg as s = Inr s' \<Longrightarrow> moved s s'"
proof (induction as arbitrary: s)
  case Nil
  then show ?case by simp
next
  case (Cons a as)
  obtain arg hostloc where a: "a = (arg, hostloc)" by (cases a)
  with Cons.prems obtain l s1 where
    1: "(if \<not> IsEmpty arg then UseScratchHostLocReg cfg s arg [hostloc]
         else ScratchHostLocReg cfg s [hostloc]) = Inr (l, s1)"
    and 2: "HostCall_args cfg as s1 = Inr s'"
    by (auto simp: bind_eq_Inr)
  from 1 have "moved s s1"
    by (auto split: if_splits dest: UseScratchHostLocReg_moved ScratchHostLocReg_moved)
  with Cons.IH [OF 2] show ?case by (rule moved_trans [rotated])
qed

lemma HostCall_others_moved: "HostCall_others cfg ls s = Inr s' \<Longrightarrow> moved s s'"
proof (induction ls arbitrary: s)
  case Nil
  then show ?case by simp
next
  case (Cons l ls)
  then obtain r s1 where 1: "ScratchHostLocReg cfg s [l] = Inr (r, s1)"
    and 2: "HostCall_others cfg ls s1 = Inr s'"
    by (auto simp: bind_eq_Inr)
  from ScratchHostLocReg_moved [OF 1] Cons.IH [OF 2] show ?case by (rule moved_trans)
qed

lemma HostCall_moved:
  assumes "HostCall cfg s r a0 a1 a2 a3 = Inr s'"
  shows "case r of Some d \<Rightarrow> defined d s s' | None \<Rightarrow> moved s s'"
proof -
  from assms obtain others l s1 s2 s3 where
    1: "ScratchHostLocReg cfg s [ABI_RETURN cfg] = Inr (l, s1)"
    and 2: "(case r of Some d \<Rightarrow> DefineValue cfg s1 d l | None \<Rightarrow> Inr s1) = Inr s2"
    and 3: "HostCall_args cfg (zip [a0, a1, a2, a3] (args_hostloc cfg)) s2 = Inr s3"
    and 4: "HostCall_others cfg others s3 = Inr s'"
    by (auto simp: HostCall_def bind_eq_Inr)
  from 3 4 have m: "moved s2 s'"
    by (blast intro: moved_trans dest: HostCall_args_moved HostCall_others_moved)
  from 1 have m1: "moved s s1" by (rule ScratchHostLocReg_moved)
  show ?thesis
  proof (cases r)
    case None
    with 2 m m1 show ?thesis by (auto intro: moved_trans)
  next
    case (Some d)
    with 2 have "defined d s1 s2" by (auto dest: DefineValue_defined)
    with m m1 Some show ?thesis by (auto intro: moved_defined defined_moved)
  qed
qed

lemma UseHostLoc_moved:
  assumes "UseHostLoc cfg s i ds = Inr (r, s')"
  shows "moved s s'"
proof -
  from assms obtain cur where
    rest: "(if cur \<in> set ds then
         let was_being_used = IsLocked (LocInfo s cur) in
         bind (ASSERT (IsUse (LocInfo s cur) \<or> IsIdle (LocInfo s cur))
                 (AssertionFailed, s)) (\<lambda>_.
           let s1 = set_LocInfo s cur (Lock (LocInfo s cur)) in
           bind (DecrementRemainingUses s1 i) (\<lambda>s2.
           bind (DEBUG_ASSERT cfg (IsUse (LocInfo s2 cur)) (AssertionFailed, s2)) (\<lambda>_.
             Inr ((cur, was_being_used), s2))))
       else if HostLocIsSpill cur then
         let was_being_used = IsLocked (LocInfo s cur);
             s1 = set_LocInfo s cur (Lock (LocInfo s cur))
         in
         bind (DecrementRemainingUses s1 i) (\<lambda>s2.
         bind (DEBUG_ASSERT cfg (IsUse (LocInfo s2 cur)) (AssertionFailed, s2)) (\<lambda>_.
           Inr ((cur, was_being_used), s2)))
       else if HostLocIsRegister cur then
         bind (SelectARegister s ds) (\<lambda>new.
         bind (ASSERT (IsIdle (LocInfo s cur)) (AssertionFailed, s)) (\<lambda>_.
         bind (EmitExchange s new cur) (\<lambda>s1.
           let s2 = set_LocInfo (set_LocInfo s1 new (LocInfo s1 cur)) cur (LocInfo s1 new);
               s3 = set_LocInfo s2 new (Lock (LocInfo s2 new))
           in
           bind (DecrementRemainingUses s3 i) (\<lambda>s4.
           bind (DEBUG_ASSERT cfg (IsUse (LocInfo s4 new)) (AssertionFailed, s4)) (\<lambda>_.
             Inr ((new, False), s4))))))
       else Inl (InvalidCurrentLocation, s)) = Inr (r, s')"
    by (auto simp: UseHostLoc_def bind_eq_Inr)
  show ?thesis
  proof (cases "cur \<in> set ds \<or> HostLocIsSpill cur")
    case True
    with rest have "vals s' = vals s"
      by (auto simp: bind_eq_Inr Let_def split: if_splits dest!: vals_Decrement)
    then show ?thesis by (rule moved_same_vals)
  next
    case False
    with rest obtain new s1 where e: "EmitExchange s new cur = Inr s1"
      and d: "DecrementRemainingUses
        (set_LocInfo (set_LocInfo (set_LocInfo s1 new (LocInfo s1 cur)) cur (LocInfo s1 new)) new
           (Lock (LocInfo (set_LocInfo (set_LocInfo s1 new (LocInfo s1 cur)) cur (LocInfo s1 new)) new)))
        i = Inr s'"
      by (auto simp: bind_eq_Inr Let_def split: if_splits)
    from vals_EmitExchange [OF e]
    have e': "set (values_held (hostloc_info s1 l)) = set (values_held (hostloc_info s l))" for l
      by (simp add: vals_def fun_eq_iff)
    from vals_Decrement [OF d]
    have "vals s' = (vals s)(new := vals s cur, cur := vals s new)"
      by (auto simp: vals_def set_LocInfo_def Lock_def LocInfo_def fun_eq_iff e')
    then show ?thesis by (rule moved_swap)
  qed
qed

lemma EndOfAllocScope_vals:
  "vals (EndOfAllocScope s) l = {v \<in> vals s l. 0 < use_count s v}"
  by (simp add: EndOfAllocScope_def Info_EndOfAllocScope_def vals_def)

lemma EndOfAllocScope_keeps:
  "at_most_one_HostLoc s \<Longrightarrow> at_most_one_HostLoc (EndOfAllocScope s)"
  "resident s v \<Longrightarrow> 0 < use_count s v \<Longrightarrow> resident (EndOfAllocScope s) v"
  "use_count (EndOfAllocScope s) = use_count s"
  by (auto simp: at_most_one_vals resident_vals EndOfAllocScope_vals)
    (simp add: EndOfAllocScope_def)

lemma exec_cases:
  assumes "exec cfg op s = Inr s'"
  shows "(case value_defined_by op of Some d \<Rightarrow> defined d s s' | None \<Rightarrow>
            op = OpEndOfAllocScope \<and> s' = EndOfAllocScope s \<or> moved s s')"
  using assms
  by (cases op)
    (auto simp: bind_eq_Inr
      dest: RegisterAddDef_defined UseDefOpArgHostLocReg_defined UseHostLocReg_moved
        UseOpArg_moved UseScratchHostLocReg_moved ScratchHostLocReg_moved HostCall_moved
        DefineValue_defined Move_moved Exchange_moved MoveOutOfTheWay_moved UseHostLoc_moved
        SpillRegister_moved
      split: option.splits)

lemma exactly_one_iff:
  "at_most_one_HostLoc s \<Longrightarrow> exactly_one_HostLoc s v \<longleftrightarrow> resident s v"
  by (auto simp: at_most_one_HostLoc_def exactly_one_HostLoc_def resident_def)

lemma exec_keeps:
  assumes "exec cfg op s = Inr s'"
    and "at_most_one_HostLoc s"
    and "\<forall>d. value_defined_by op = Some d \<longrightarrow> \<not> resident s d"
  shows "at_most_one_HostLoc s' \<and> (\<forall>v. resident s v \<and> 0 < use_count s' v \<longrightarrow> resident s' v)"
proof (cases "value_defined_by op")
  case (Some d)
  with exec_cases [OF assms(1)] have "defined d s s'" by simp
  with assms(2,3) Some show ?thesis by (auto simp: defined_def)
next
  case None
  with exec_cases [OF assms(1)]
  consider "s' = EndOfAllocScope s" | "moved s s'" by auto
  then show ?thesis
  proof cases
    case 1
    with assms(2) show ?thesis by (auto simp: EndOfAllocScope_keeps)
  next
    case 2
    with assms(2) show ?thesis by (auto simp: moved_def)
  qed
qed

section \<open>A host call\<close>

lemma LocInfo_Decrement: "DecrementRemainingUses s v = Inr s' \<Longrightarrow> LocInfo s' = LocInfo s"
  by (auto simp: DecrementRemainingUses_def LocInfo_def fun_eq_iff split: if_splits)

lemma LocInfo_LoadImmediate:
  "LoadImmediateIntoHostLocReg s imm l = Inr (r, s') \<Longrightarrow> LocInfo s' = LocInfo s"
  by (auto simp: LoadImmediateIntoHostLocReg_def bind_eq_Inr emit_def LocInfo_def fun_eq_iff
      split: if_splits)

lemma LocInfo_set_LocInfo: "LocInfo (set_LocInfo s l i) = (LocInfo s)(l := i)"
  by (simp add: set_LocInfo_def LocInfo_def fun_eq_iff)

lemma locked_kept_refl [simp]: "locked_kept s s"
  by (simp add: locked_kept_def)

lemma locked_kept_trans: "locked_kept s s1 \<Longrightarrow> locked_kept s1 s2 \<Longrightarrow> locked_kept s s2"
  by (auto simp: locked_kept_def)

lemma locked_kept_same: "LocInfo s' = LocInfo s \<Longrightarrow> locked_kept s s'"
  by (simp add: locked_kept_def)

lemma locked_kept_locked:
  "locked_kept s s' \<Longrightarrow> IsLocked (LocInfo s l) \<Longrightarrow> IsLocked (LocInfo s' l)"
  by (simp add: locked_kept_def)

lemma locked_kept_scratch:
  "locked_kept s s' \<Longrightarrow> IsScratch (LocInfo s l) \<Longrightarrow> IsScratch (LocInfo s' l)"
  by (auto simp: locked_kept_def IsScratch_def IsLocked_def)

lemma SpillRegister_kept:
  assumes "SpillRegister cfg s loc = Inr s'"
  shows "locked_kept s s' \<and> LocInfo s' loc = empty_info"
proof -
  from assms obtain new_loc s1 where
    f: "FindFreeSpill cfg s = Inr new_loc" and e: "EmitMove s new_loc loc = Inr s1"
    and u: "\<not> IsRegisterAllocated s loc"
    and s': "s' = set_LocInfo (set_LocInfo s1 new_loc (LocInfo s1 loc)) loc empty_info"
    by (auto simp: SpillRegister_def bind_eq_Inr ASSERT_def split: if_splits)
  from LocInfo_EmitMove [OF e] have l1: "LocInfo s1 = LocInfo s" .
  from FindFreeSpill_empty [OF f] have n: "\<not> IsLocked (LocInfo s new_loc)"
    by (simp add: IsEmptyInfo_def IsLocked_def)
  from u have ul: "\<not> IsLocked (LocInfo s loc)"
    by (simp add: IsRegisterAllocated_def IsIdle_def IsLocked_def)
  with n l1 show ?thesis
    by (auto simp: s' locked_kept_def LocInfo_set_LocInfo)
qed

lemma spill_if_occupied_kept:
  assumes "(if IsRegisterOccupied s l then SpillRegister cfg s l else Inr s) = Inr s1"
    and "\<not> IsLocked (LocInfo s l)"
  shows "locked_kept s s1 \<and> IsEmptyInfo (LocInfo s1 l)"
  using assms
  by (auto split: if_splits dest: SpillRegister_kept
      simp: IsRegisterOccupied_def IsEmptyInfo_def empty_info_def)

lemma ScratchHostLocReg_kept:
  assumes "ScratchHostLocReg cfg s ds = Inr (l, s')"
  shows "l \<in> set ds \<and> IsScratch (LocInfo s' l) \<and> locked_kept s s'"
proof -
  from assms obtain s1 where sel: "SelectARegister s ds = Inr l"
    and sp: "(if IsRegisterOccupied s l then SpillRegister cfg s l else Inr s) = Inr s1"
    and s': "s' = set_LocInfo s1 l (Lock (LocInfo s1 l))"
    by (auto simp: ScratchHostLocReg_def bind_eq_Inr Let_def)
  from SelectARegister_Inr [OF sel] have l: "l \<in> set ds" "\<not> IsLocked (LocInfo s l)" by auto
  from spill_if_occupied_kept [OF sp l(2)]
  have k: "locked_kept s s1" and e: "IsEmptyInfo (LocInfo s1 l)" by auto
  from e have "locked_kept s1 s'"
    by (auto simp: s' locked_kept_def LocInfo_set_LocInfo IsLocked_def IsEmptyInfo_def)
  moreover from e have "IsScratch (LocInfo s' l)"
    by (simp add: s' LocInfo_set_LocInfo IsScratch_def IsEmptyInfo_def Lock_def)
  ultimately show ?thesis using l(1) k by (blast intro: locked_kept_trans)
qed

lemma UseScratchHostLocReg_Inst_kept:
  assumes "UseScratchHostLocReg_Inst cfg s i ds = Inr (l, s')"
  shows "l \<in> set ds \<and> IsScratch (LocInfo s' l) \<and> locked_kept s s'"
proof -
  from assms obtain cur new s1 where sel: "SelectARegister s ds = Inr new"
    and sp: "(if IsRegisterOccupied s new then SpillRegister cfg s new else Inr s) = Inr s1"
    and rest: "(if HostLocIsSpill cur then
         bind (EmitMove s1 new cur) (\<lambda>s2.
           let s3 = set_LocInfo s2 new (Lock (LocInfo s2 new)) in
           bind (DecrementRemainingUses s3 i) (\<lambda>s4.
           bind (DEBUG_ASSERT cfg (IsScratch (LocInfo s4 new)) (AssertionFailed, s4)) (\<lambda>_.
             Inr (new, s4))))
       else if HostLocIsRegister cur then
         bind (ASSERT (IsIdle (LocInfo s1 cur) \<or> IsUse (LocInfo s1 cur))
                 (AssertionFailed, s1)) (\<lambda>_.
         bind (if cur \<noteq> new then EmitMove s1 new cur
               else bind (ASSERT (IsIdle (LocInfo s1 cur)) (AssertionFailed, s1))
                      (\<lambda>_. Inr s1)) (\<lambda>s2.
           let s3 = set_LocInfo s2 new empty_info;
               s4 = set_LocInfo s3 new (Lock (LocInfo s3 new))
           in
           bind (DecrementRemainingUses s4 i) (\<lambda>s5.
           bind (DEBUG_ASSERT cfg (IsScratch (LocInfo s5 new)) (AssertionFailed, s5)) (\<lambda>_.
             Inr (new, s5)))))
       else Inl (InvalidCurrentLocation, s1)) = Inr (l, s')"
    by (auto simp: UseScratchHostLocReg_Inst_def bind_eq_Inr)
  from SelectARegister_Inr [OF sel] have n: "new \<in> set ds" "\<not> IsLocked (LocInfo s new)" by auto
  from spill_if_occupied_kept [OF sp n(2)]
  have k: "locked_kept s s1" and e: "IsEmptyInfo (LocInfo s1 new)" by auto
  have "new = l \<and> LocInfo s' = (LocInfo s1)(new := Lock empty_info)"
  proof (cases "HostLocIsSpill cur")
    case True
    with rest obtain s2 where "new = l" "EmitMove s1 new cur = Inr s2"
      "DecrementRemainingUses (set_LocInfo s2 new (Lock (LocInfo s2 new))) i = Inr s'"
      by (auto simp: bind_eq_Inr Let_def)
    with e show ?thesis
      by (auto dest!: LocInfo_Decrement LocInfo_EmitMove
          simp: LocInfo_set_LocInfo Lock_def IsEmptyInfo_def empty_info_def)
  next
    case False
    with rest obtain s2 where s2: "new = l" "LocInfo s2 = LocInfo s1"
      and d: "DecrementRemainingUses
         (set_LocInfo (set_LocInfo s2 new empty_info) new
            (Lock (LocInfo (set_LocInfo s2 new empty_info) new))) i = Inr s'"
      by (auto simp: bind_eq_Inr Let_def ASSERT_def split: if_splits dest: LocInfo_EmitMove)
    from LocInfo_Decrement [OF d] s2 show ?thesis
      by (auto simp: LocInfo_set_LocInfo)
  qed
  with e have "new = l" "locked_kept s1 s'" "IsScratch (LocInfo s' new)"
    by (auto simp: locked_kept_def IsLocked_def IsEmptyInfo_def IsScratch_def Lock_def
        empty_info_def)
  with k n(1) show ?thesis by (blast intro: locked_kept_trans)
qed

lemma UseScratchHostLocReg_kept:
  assumes "UseScratchHostLocReg cfg s u ds = Inr (l, s')"
  shows "l \<in> set ds \<and> IsScratch (LocInfo s' l) \<and> locked_kept s s'"
proof (cases "IsImmediate u")
  case False
  with assms show ?thesis
    by (auto simp: UseScratchHostLocReg_def bind_eq_Inr dest: UseScratchHostLocReg_Inst_kept)
next
  case True
  with assms obtain k s1 where 1: "ScratchHostLocReg cfg s ds = Inr (k, s1)"
    and 2: "LoadImmediateIntoHostLocReg s1 u k = Inr (l, s')"
    by (auto simp: UseScratchHostLocReg_def bind_eq_Inr)
  from 2 have "l = k"
    by (auto simp: LoadImmediateIntoHostLocReg_def bind_eq_Inr split: if_splits)
  with ScratchHostLocReg_kept [OF 1] LocInfo_LoadImmediate [OF 2] show ?thesis
    by (auto simp: locked_kept_def)
qed

lemma DefineValue_LocInfo:
  "DefineValue cfg s d l = Inr s' \<Longrightarrow> LocInfo s' = (LocInfo s)(l := AddValue (LocInfo s l) d)"
  by (auto simp: DefineValue_def bind_eq_Inr LocInfo_set_LocInfo)

lemma HostCall_args_kept:
  "HostCall_args cfg as s = Inr s' \<Longrightarrow>
   locked_kept s s' \<and> (\<forall>l \<in> snd ` set as. IsScratch (LocInfo s' l))"
proof (induction as arbitrary: s)
  case Nil
  then show ?case by simp
next
  case (Cons a as)
  obtain arg hostloc where a: "a = (arg, hostloc)" by (cases a)
  with Cons.prems obtain l s1 where
    1: "(if \<not> IsEmpty arg then UseScratchHostLocReg cfg s arg [hostloc]
         else ScratchHostLocReg cfg s [hostloc]) = Inr (l, s1)"
    and 2: "HostCall_args cfg as s1 = Inr s'"
    by (auto simp: bind_eq_Inr)
  from 1 have k1: "locked_kept s s1" and sc: "IsScratch (LocInfo s1 hostloc)"
    by (auto split: if_splits dest: UseScratchHostLocReg_kept ScratchHostLocReg_kept)
  from Cons.IH [OF 2] have k2: "locked_kept s1 s'"
    and r: "\<forall>l \<in> snd ` set as. IsScratch (LocInfo s' l)" by auto
  from locked_kept_scratch [OF k2 sc] r a k1 k2 show ?case
    by (auto intro: locked_kept_trans)
qed


lemma ScratchHostLocReg_locked_fails:
  assumes "IsLocked (LocInfo s l)"
  shows "\<exists>e. ScratchHostLocReg cfg s [l] = Inl e"
proof -
  from assms SelectARegister_Inl [of s "[l]"] obtain e where "SelectARegister s [l] = Inl e"
    by auto
  then show ?thesis
    by (cases "DEBUG_ASSERT cfg (list_all HostLocIsRegister [l]) (AssertionFailed, s)")
      (simp_all add: ScratchHostLocReg_def)
qed

lemma HostCall_others_unlocked:
  "HostCall_others cfg ls s = Inr s' \<Longrightarrow> l \<in> set ls \<Longrightarrow> \<not> IsLocked (LocInfo s l)"
proof (induction ls arbitrary: s)
  case Nil
  then show ?case by simp
next
  case (Cons x ls)
  then obtain r s1 where 1: "ScratchHostLocReg cfg s [x] = Inr (r, s1)"
    and 2: "HostCall_others cfg ls s1 = Inr s'"
    by (auto simp: bind_eq_Inr)
  show ?case
  proof
    assume k: "IsLocked (LocInfo s l)"
    with 1 ScratchHostLocReg_locked_fails [of s l cfg] have "l \<noteq> x" by auto
    with Cons.prems(2) have "l \<in> set ls" by simp
    from Cons.IH [OF 2 this] have "\<not> IsLocked (LocInfo s1 l)" .
    moreover from ScratchHostLocReg_kept [OF 1] k have "IsLocked (LocInfo s1 l)"
      by (auto dest: locked_kept_locked)
    ultimately show False ..
  qed
qed

lemma erase_all_keeps:
  "erase_all ls xs = Inr ys \<Longrightarrow> l \<in> set xs \<Longrightarrow> l \<notin> set ls \<Longrightarrow> l \<in> set ys"
proof (induction ls arbitrary: xs)
  case Nil
  then show ?case by simp
next
  case (Cons a ls)
  then show ?case
    by (auto simp: bind_eq_Inr erase_first_def split: if_splits)
qed


text \<open>
  \<open>other_caller_save\<close> is the list of caller-saved registers without the four parameter
  registers; the return register is not erased from it. So under a description that lists
  the return register among the caller-saved registers, \<open>HostCall\<close> reserves it first and
  meets it again, locked, in its last loop, and fails by the assertion of
  \<open>SelectARegister\<close>, from every state and for every result and arguments. The descriptions
  under which \<open>HostCall\<close> can complete keep the return register out of that list.
\<close>

lemma HostCall_fails_on_caller_saved_return:
  assumes "ABI_RETURN cfg \<in> set (ABI_ALL_CALLER_SAVE cfg)"
    and "ABI_RETURN cfg \<notin> set (args_hostloc cfg)"
  shows "\<exists>e. HostCall cfg s result_def arg0 arg1 arg2 arg3 = Inl e"
proof (cases "HostCall cfg s result_def arg0 arg1 arg2 arg3")
  case (Inl e)
  then show ?thesis by blast
next
  case (Inr s')
  then obtain others l s1 s2 s3 where
    o: "other_caller_save cfg = Inr others"
    and 1: "ScratchHostLocReg cfg s [ABI_RETURN cfg] = Inr (l, s1)"
    and 2: "(case result_def of Some d \<Rightarrow> DefineValue cfg s1 d l | None \<Rightarrow> Inr s1) = Inr s2"
    and 3: "HostCall_args cfg (zip [arg0, arg1, arg2, arg3] (args_hostloc cfg)) s2 = Inr s3"
    and 4: "HostCall_others cfg others s3 = Inr s'"
    by (auto simp: HostCall_def bind_eq_Inr)
  from o assms have mem: "ABI_RETURN cfg \<in> set others"
    by (auto simp: other_caller_save_def dest: erase_all_keeps)
  from ScratchHostLocReg_kept [OF 1] have "IsLocked (LocInfo s1 (ABI_RETURN cfg))"
    by (auto simp: IsScratch_def IsLocked_def)
  with 2 have "IsLocked (LocInfo s2 (ABI_RETURN cfg))"
    by (auto split: option.splits dest!: DefineValue_LocInfo simp: IsLocked_def AddValue_def)
  with HostCall_args_kept [OF 3] have "IsLocked (LocInfo s3 (ABI_RETURN cfg))"
    by (auto dest: locked_kept_locked)
  with HostCall_others_unlocked [OF 4 mem] show ?thesis by simp
qed


lemma bind_return [simp]: "bind m Inr = m"
  by (cases m) simp_all







section \<open>When a host call completes\<close>

lemma HostLoc_class:
  "HostLocIsGPR l \<and> \<not> HostLocIsXMM l \<and> \<not> HostLocIsSpill l \<or>
   \<not> HostLocIsGPR l \<and> HostLocIsXMM l \<and> \<not> HostLocIsSpill l \<or>
   \<not> HostLocIsGPR l \<and> \<not> HostLocIsXMM l \<and> HostLocIsSpill l"
  by (cases l) (simp_all add: HostLocIsGPR_def HostLocIsXMM_def all_gprs_def all_xmms_def)

lemma IsEmptyInfo_eq: "IsEmptyInfo i \<longleftrightarrow> i = empty_info"
  by (cases i) (auto simp: IsEmptyInfo_def empty_info_def)




lemma LocInfo_emit [simp]: "LocInfo (emit s x) = LocInfo s"
  by (simp add: LocInfo_def emit_def fun_eq_iff)

lemma free_spills_spill: "sp \<in> set (free_spills cfg s) \<Longrightarrow>
   HostLocIsSpill sp \<and> sp \<in> set (all_hostlocs cfg) \<and> LocInfo s sp = empty_info"
  by (auto simp: free_spills_def HostLocSpill_def all_hostlocs_def IsRegisterOccupied_def
      IsEmptyInfo_eq)



lemma reserved_cases:
  assumes "reserved cfg l s s'" and "HostLocIsRegister l"
  obtains (free) "LocInfo s l = empty_info" "LocInfo s' = (LocInfo s)(l := Lock empty_info)"
  | (spilled) sp where "LocInfo s l \<noteq> empty_info" "sp \<in> set (free_spills cfg s)"
      "HostLocIsSpill sp" "sp \<noteq> l" "sp \<in> set (all_hostlocs cfg)" "LocInfo s sp = empty_info"
      "LocInfo s' = (LocInfo s)(sp := LocInfo s l, l := Lock empty_info)"
proof (cases "IsRegisterOccupied s l")
  case False
  with assms(1) have "LocInfo s l = empty_info" "LocInfo s' = (LocInfo s)(l := Lock empty_info)"
    by (simp_all add: reserved_def IsRegisterOccupied_def IsEmptyInfo_eq)
  then show ?thesis by (rule free)
next
  case True
  with assms(1) obtain sp where sp: "sp \<in> set (free_spills cfg s)"
    and e: "LocInfo s' = (LocInfo s)(sp := LocInfo s l, l := Lock empty_info)"
    by (auto simp: reserved_def)
  from free_spills_spill [OF sp] assms(2) HostLoc_class [of l] have "sp \<noteq> l"
    by (auto simp: HostLocIsRegister_def)
  with True sp e free_spills_spill [OF sp] show ?thesis
    by (intro spilled [of sp]) (simp_all add: IsRegisterOccupied_def IsEmptyInfo_eq)
qed

lemma contains_empty [simp]:
  "\<not> ContainsValue empty_info v" "\<not> ContainsValue (Lock empty_info) v"
  by (simp_all add: ContainsValue_def empty_info_def Lock_def)


lemma reserved_resident:
  assumes "reserved cfg l s s'" and "HostLocIsRegister l" and "resident s' v"
  shows "resident s v"
  using assms(1,2)
proof (cases rule: reserved_cases)
  case free
  with assms(3) show ?thesis by (auto simp: resident_def split: if_splits)
next
  case (spilled sp)
  with assms(3) show ?thesis by (auto simp: resident_def split: if_splits)
qed







lemma LocInfo_use_count_update [simp]: "LocInfo (s\<lparr>use_count := f\<rparr>) = LocInfo s"
  by (simp add: LocInfo_def fun_eq_iff)



lemma located_same: "LocInfo s' = LocInfo s \<Longrightarrow> located cfg s' v = located cfg s v"
  by (simp add: located_def)











section \<open>The reservations of a host call\<close>


text \<open>
  Two values live in R8 and R9, with two uses each. A host call with a result and these two
  as its first arguments copies them into RDI and RSI, and spills them from R8 and R9 when
  it reserves these two among the other caller-saved registers.
\<close>

lemma host_call_example_reached:
  "run sysv_others [OpScratchHostLocReg [R8], OpDefineValue 0 R8,
                    OpScratchHostLocReg [R9], OpDefineValue 1 R9, OpEndOfAllocScope]
     (initial (\<lambda>_. 2)) = Inr host_call_example"
  by (simp add: alloc_defs Let_def host_call_example_def sysv_others_def fun_eq_iff)




section \<open>How often a use decrements\<close>

lemma use_count_EmitMove: "EmitMove s a b = Inr s' \<Longrightarrow> use_count s' = use_count s"
  by (auto simp: EmitMove_def split: if_splits)

lemma use_count_EmitExchange: "EmitExchange s a b = Inr s' \<Longrightarrow> use_count s' = use_count s"
  by (auto simp: EmitExchange_def split: if_splits)

lemma use_count_SpillRegister: "SpillRegister cfg s l = Inr s' \<Longrightarrow> use_count s' = use_count s"
  by (auto simp: SpillRegister_def bind_eq_Inr dest!: use_count_EmitMove)

lemma use_count_Move: "Move s a b = Inr s' \<Longrightarrow> use_count s' = use_count s"
  by (auto simp: Move_def bind_eq_Inr split: if_splits dest!: use_count_EmitMove)

lemma use_count_Exchange: "Exchange s a b = Inr s' \<Longrightarrow> use_count s' = use_count s"
  by (auto simp: Exchange_def bind_eq_Inr split: if_splits
      dest!: use_count_EmitExchange use_count_Move)

lemma use_count_MoveOutOfTheWay:
  "MoveOutOfTheWay cfg s l = Inr s' \<Longrightarrow> use_count s' = use_count s"
  by (auto simp: MoveOutOfTheWay_def bind_eq_Inr split: if_splits dest!: use_count_SpillRegister)

lemma use_count_Decrement:
  "DecrementRemainingUses s i = Inr s' \<Longrightarrow>
   use_count s i = use_count s' i + 1 \<and> (\<forall>j. j \<noteq> i \<longrightarrow> use_count s' j = use_count s j)"
  by (auto simp: DecrementRemainingUses_def split: if_splits)

lemma UseScratchHostLocReg_Inst_once:
  assumes "UseScratchHostLocReg_Inst cfg s i ds = Inr (l, s')"
  shows "use_count s i = use_count s' i + 1"
proof -
  from assms obtain cur new s1 where
    sp: "(if IsRegisterOccupied s new then SpillRegister cfg s new else Inr s) = Inr s1"
    and rest: "(if HostLocIsSpill cur then
         bind (EmitMove s1 new cur) (\<lambda>s2.
           let s3 = set_LocInfo s2 new (Lock (LocInfo s2 new)) in
           bind (DecrementRemainingUses s3 i) (\<lambda>s4.
           bind (DEBUG_ASSERT cfg (IsScratch (LocInfo s4 new)) (AssertionFailed, s4)) (\<lambda>_.
             Inr (new, s4))))
       else if HostLocIsRegister cur then
         bind (ASSERT (IsIdle (LocInfo s1 cur) \<or> IsUse (LocInfo s1 cur))
                 (AssertionFailed, s1)) (\<lambda>_.
         bind (if cur \<noteq> new then EmitMove s1 new cur
               else bind (ASSERT (IsIdle (LocInfo s1 cur)) (AssertionFailed, s1))
                      (\<lambda>_. Inr s1)) (\<lambda>s2.
           let s3 = set_LocInfo s2 new empty_info;
               s4 = set_LocInfo s3 new (Lock (LocInfo s3 new))
           in
           bind (DecrementRemainingUses s4 i) (\<lambda>s5.
           bind (DEBUG_ASSERT cfg (IsScratch (LocInfo s5 new)) (AssertionFailed, s5)) (\<lambda>_.
             Inr (new, s5)))))
       else Inl (InvalidCurrentLocation, s1)) = Inr (l, s')"
    by (auto simp: UseScratchHostLocReg_Inst_def bind_eq_Inr)
  from sp have u1: "use_count s1 = use_count s"
    by (auto split: if_splits dest: use_count_SpillRegister)
  have "use_count s1 i = use_count s' i + 1"
  proof (cases "HostLocIsSpill cur")
    case True
    with rest obtain s2 where "EmitMove s1 new cur = Inr s2"
      "DecrementRemainingUses (set_LocInfo s2 new (Lock (LocInfo s2 new))) i = Inr s'"
      by (auto simp: bind_eq_Inr Let_def)
    then show ?thesis by (auto dest!: use_count_Decrement use_count_EmitMove)
  next
    case False
    with rest obtain s2 where s2: "use_count s2 = use_count s1"
      and d: "DecrementRemainingUses
         (set_LocInfo (set_LocInfo s2 new empty_info) new
            (Lock (LocInfo (set_LocInfo s2 new empty_info) new))) i = Inr s'"
      by (auto simp: bind_eq_Inr Let_def ASSERT_def split: if_splits dest: use_count_EmitMove)
    from use_count_Decrement [OF d] s2 show ?thesis by simp
  qed
  with u1 show ?thesis by simp
qed

text \<open>
  C1, as the code has it. A completed \<open>UseScratchHostLocReg\<close> on a non-immediate value
  decrements its count once. A completed \<open>UseHostLocReg\<close> decrements it once when the value
  is in a desired location or in an unlocked one, and twice when the value is locked in a
  location outside the desired list.
\<close>

theorem UseHostLocReg_decrements:
  assumes "UseHostLocReg cfg s (InstRef i) ds = Inr (l, s')"
    and "ValueLocation cfg s i = Some cur"
  shows "use_count s i =
           use_count s' i + (if cur \<notin> set ds \<and> IsLocked (LocInfo s cur) then 2 else 1)"
proof -
  from assms(1) obtain s1 where d: "DecrementRemainingUses s i = Inr s1"
    and rest0: "bind (in_state s1 (deref (ValueLocation cfg s1 i))) (\<lambda>current_location.
       let can_use_current_location = (current_location \<in> set ds) in
       if can_use_current_location then
         Inr (current_location,
              set_LocInfo s1 current_location (Lock (LocInfo s1 current_location)))
       else if IsLocked (LocInfo s1 current_location) then
         UseScratchHostLocReg_Inst cfg s1 i ds
       else
         bind (SelectARegister s1 ds) (\<lambda>destination_location.
         bind (if IsSameHostLocClass destination_location current_location
               then Exchange s1 destination_location current_location
               else bind (MoveOutOfTheWay cfg s1 destination_location) (\<lambda>s2.
                      Move s2 destination_location current_location)) (\<lambda>s3.
           Inr (destination_location,
                set_LocInfo s3 destination_location (Lock (LocInfo s3 destination_location))))))
       = Inr (l, s')"
    by (auto simp: UseHostLocReg_def UseHostLocReg_Inst_def bind_eq_Inr)
  from LocInfo_Decrement [OF d] have li: "LocInfo s1 = LocInfo s" .
  then have "ValueLocation cfg s1 i = ValueLocation cfg s i" by (simp add: ValueLocation_def)
  with assms(2) rest0 have rest: "(if cur \<in> set ds then
         Inr (cur, set_LocInfo s1 cur (Lock (LocInfo s1 cur)))
       else if IsLocked (LocInfo s1 cur) then UseScratchHostLocReg_Inst cfg s1 i ds
       else
         bind (SelectARegister s1 ds) (\<lambda>dest.
         bind (if IsSameHostLocClass dest cur then Exchange s1 dest cur
               else bind (MoveOutOfTheWay cfg s1 dest) (\<lambda>s2. Move s2 dest cur)) (\<lambda>s3.
           Inr (dest, set_LocInfo s3 dest (Lock (LocInfo s3 dest)))))) = Inr (l, s')"
    by (simp add: deref_def Let_def)
  from use_count_Decrement [OF d] have u1: "use_count s i = use_count s1 i + 1" by simp
  show ?thesis
  proof (cases "cur \<notin> set ds \<and> IsLocked (LocInfo s1 cur)")
    case True
    with rest have "UseScratchHostLocReg_Inst cfg s1 i ds = Inr (l, s')" by simp
    from UseScratchHostLocReg_Inst_once [OF this] u1 True li show ?thesis by simp
  next
    case False
    with rest have "use_count s' = use_count s1"
      by (auto simp: bind_eq_Inr split: if_splits
          dest!: use_count_Exchange use_count_MoveOutOfTheWay use_count_Move)
    with u1 False li show ?thesis by auto
  qed
qed

lemma UseScratchHostLocReg_decrements_once:
  "UseScratchHostLocReg cfg s (InstRef i) ds = Inr (l, s') \<Longrightarrow>
   use_count s i = use_count s' i + 1"
  by (auto simp: UseScratchHostLocReg_def dest: UseScratchHostLocReg_Inst_once)

section \<open>The invariant on the locations of the values\<close>

lemma uses_le_refl [simp]: "uses_le s s"
  by (simp add: uses_le_def)

lemma uses_le_trans: "uses_le s s1 \<Longrightarrow> uses_le s1 s2 \<Longrightarrow> uses_le s s2"
  by (auto simp: uses_le_def intro: order_trans)

lemma uses_le_same: "use_count s' = use_count s \<Longrightarrow> uses_le s s'"
  by (simp add: uses_le_def)

lemma uses_le_Decrement: "DecrementRemainingUses s i = Inr s' \<Longrightarrow> uses_le s s'"
  by (auto simp: DecrementRemainingUses_def uses_le_def split: if_splits)

lemma uses_le_ScratchHostLocReg:
  "ScratchHostLocReg cfg s ds = Inr (l, s') \<Longrightarrow> uses_le s s'"
  by (rule uses_le_same)
    (auto simp: ScratchHostLocReg_def bind_eq_Inr Let_def split: if_splits
      dest!: use_count_SpillRegister)

lemma uses_le_LoadImmediate:
  "LoadImmediateIntoHostLocReg s imm l = Inr (r, s') \<Longrightarrow> uses_le s s'"
  by (rule uses_le_same)
    (auto simp: LoadImmediateIntoHostLocReg_def bind_eq_Inr split: if_splits)

lemma uses_le_DefineValue: "DefineValue cfg s d l = Inr s' \<Longrightarrow> uses_le s s'"
  by (rule uses_le_same) (auto simp: DefineValue_def bind_eq_Inr)

lemma uses_le_UseScratchHostLocReg_Inst:
  assumes "UseScratchHostLocReg_Inst cfg s i ds = Inr (l, s')"
  shows "uses_le s s'"
proof -
  from assms obtain cur new s1 where
    sp: "(if IsRegisterOccupied s new then SpillRegister cfg s new else Inr s) = Inr s1"
    and rest: "(if HostLocIsSpill cur then
         bind (EmitMove s1 new cur) (\<lambda>s2.
           let s3 = set_LocInfo s2 new (Lock (LocInfo s2 new)) in
           bind (DecrementRemainingUses s3 i) (\<lambda>s4.
           bind (DEBUG_ASSERT cfg (IsScratch (LocInfo s4 new)) (AssertionFailed, s4)) (\<lambda>_.
             Inr (new, s4))))
       else if HostLocIsRegister cur then
         bind (ASSERT (IsIdle (LocInfo s1 cur) \<or> IsUse (LocInfo s1 cur))
                 (AssertionFailed, s1)) (\<lambda>_.
         bind (if cur \<noteq> new then EmitMove s1 new cur
               else bind (ASSERT (IsIdle (LocInfo s1 cur)) (AssertionFailed, s1))
                      (\<lambda>_. Inr s1)) (\<lambda>s2.
           let s3 = set_LocInfo s2 new empty_info;
               s4 = set_LocInfo s3 new (Lock (LocInfo s3 new))
           in
           bind (DecrementRemainingUses s4 i) (\<lambda>s5.
           bind (DEBUG_ASSERT cfg (IsScratch (LocInfo s5 new)) (AssertionFailed, s5)) (\<lambda>_.
             Inr (new, s5)))))
       else Inl (InvalidCurrentLocation, s1)) = Inr (l, s')"
    by (auto simp: UseScratchHostLocReg_Inst_def bind_eq_Inr)
  from sp have u1: "use_count s1 = use_count s"
    by (auto split: if_splits dest: use_count_SpillRegister)
  have "uses_le s1 s'"
  proof (cases "HostLocIsSpill cur")
    case True
    with rest obtain s2 where e: "EmitMove s1 new cur = Inr s2"
      and d: "DecrementRemainingUses (set_LocInfo s2 new (Lock (LocInfo s2 new))) i = Inr s'"
      by (auto simp: bind_eq_Inr Let_def)
    from uses_le_Decrement [OF d] use_count_EmitMove [OF e] show ?thesis
      by (simp add: uses_le_def)
  next
    case False
    with rest obtain s2 where s2: "use_count s2 = use_count s1"
      and d: "DecrementRemainingUses
         (set_LocInfo (set_LocInfo s2 new empty_info) new
            (Lock (LocInfo (set_LocInfo s2 new empty_info) new))) i = Inr s'"
      by (auto simp: bind_eq_Inr Let_def ASSERT_def split: if_splits dest: use_count_EmitMove)
    from uses_le_Decrement [OF d] s2 show ?thesis by (simp add: uses_le_def)
  qed
  with u1 show ?thesis by (simp add: uses_le_def)
qed

lemma uses_le_UseHostLocReg_Inst:
  assumes "UseHostLocReg_Inst cfg s i ds = Inr (l, s')"
  shows "uses_le s s'"
proof -
  from assms obtain s1 cur where d: "DecrementRemainingUses s i = Inr s1"
    and rest: "(if cur \<in> set ds then
         Inr (cur, set_LocInfo s1 cur (Lock (LocInfo s1 cur)))
       else if IsLocked (LocInfo s1 cur) then UseScratchHostLocReg_Inst cfg s1 i ds
       else
         bind (SelectARegister s1 ds) (\<lambda>dest.
         bind (if IsSameHostLocClass dest cur then Exchange s1 dest cur
               else bind (MoveOutOfTheWay cfg s1 dest) (\<lambda>s2. Move s2 dest cur)) (\<lambda>s3.
           Inr (dest, set_LocInfo s3 dest (Lock (LocInfo s3 dest)))))) = Inr (l, s')"
    by (auto simp: UseHostLocReg_Inst_def bind_eq_Inr Let_def)
  from uses_le_Decrement [OF d] have m1: "uses_le s s1" .
  have "uses_le s1 s'"
  proof (cases "cur \<in> set ds")
    case True
    with rest show ?thesis by (auto intro: uses_le_same)
  next
    case False
    show ?thesis
    proof (cases "IsLocked (LocInfo s1 cur)")
      case True
      with False rest show ?thesis by (auto dest: uses_le_UseScratchHostLocReg_Inst)
    next
      case unlocked: False
      with False rest have "use_count s' = use_count s1"
        by (auto simp: bind_eq_Inr split: if_splits
            dest!: use_count_Exchange use_count_MoveOutOfTheWay use_count_Move)
      then show ?thesis by (rule uses_le_same)
    qed
  qed
  with m1 show ?thesis by (rule uses_le_trans)
qed

lemma uses_le_UseScratchHostLocReg:
  "UseScratchHostLocReg cfg s u ds = Inr (l, s') \<Longrightarrow> uses_le s s'"
  by (auto simp: UseScratchHostLocReg_def bind_eq_Inr split: if_splits
      dest: uses_le_UseScratchHostLocReg_Inst uses_le_ScratchHostLocReg uses_le_LoadImmediate
      intro: uses_le_trans)

lemma uses_le_UseHostLocReg:
  "UseHostLocReg cfg s u ds = Inr (l, s') \<Longrightarrow> uses_le s s'"
  by (auto simp: UseHostLocReg_def bind_eq_Inr split: if_splits
      dest: uses_le_UseHostLocReg_Inst uses_le_ScratchHostLocReg uses_le_LoadImmediate
      intro: uses_le_trans)

lemma uses_le_UseOpArg:
  "UseOpArg cfg s u ds = Inr (x, s') \<Longrightarrow> uses_le s s'"
  by (auto simp: UseOpArg_def bind_eq_Inr split: if_splits dest: uses_le_UseHostLocReg_Inst)

lemma uses_le_RegisterAddDef:
  assumes "RegisterAddDef cfg s d u = Inr s'"
  shows "uses_le s s'"
proof (cases "IsImmediate u")
  case True
  with assms obtain l s1 s2 r where "ScratchHostLocReg cfg s (any_gpr cfg) = Inr (l, s1)"
    "DefineValue cfg s1 d l = Inr s2" "LoadImmediateIntoHostLocReg s2 u l = Inr (r, s')"
    by (auto simp: RegisterAddDef_def bind_eq_Inr)
  then have "uses_le s s1" "uses_le s1 s2" "uses_le s2 s'"
    by (auto dest: uses_le_ScratchHostLocReg uses_le_DefineValue uses_le_LoadImmediate)
  then show ?thesis by (blast intro: uses_le_trans)
next
  case False
  with assms obtain i s1 l where "DecrementRemainingUses s i = Inr s1"
    "DefineValue cfg s1 d l = Inr s'"
    by (auto simp: RegisterAddDef_def bind_eq_Inr)
  then have "uses_le s s1" "uses_le s1 s'"
    by (auto dest: uses_le_Decrement uses_le_DefineValue)
  then show ?thesis by (rule uses_le_trans)
qed

lemma uses_le_UseDefOpArgHostLocReg:
  assumes "UseDefOpArgHostLocReg cfg s u d ds = Inr (r, s')"
  shows "uses_le s s'"
proof -
  from assms obtain x s1 l s2 where "UseOpArg cfg s u (any_gpr cfg) = Inr (x, s1)"
    "ScratchHostLocReg cfg s1 ds = Inr (l, s2)" "DefineValue cfg s2 d l = Inr s'"
    by (auto simp: UseDefOpArgHostLocReg_def IsLastUse_def bind_eq_Inr Let_def split: if_splits)
  then have "uses_le s s1" "uses_le s1 s2" "uses_le s2 s'"
    by (auto dest: uses_le_UseOpArg uses_le_ScratchHostLocReg uses_le_DefineValue)
  then show ?thesis by (blast intro: uses_le_trans)
qed

lemma uses_le_HostCall_args: "HostCall_args cfg as s = Inr s' \<Longrightarrow> uses_le s s'"
proof (induction as arbitrary: s)
  case Nil
  then show ?case by simp
next
  case (Cons a as)
  obtain arg hostloc where a: "a = (arg, hostloc)" by (cases a)
  with Cons.prems obtain l s1 where
    1: "(if \<not> IsEmpty arg then UseScratchHostLocReg cfg s arg [hostloc]
         else ScratchHostLocReg cfg s [hostloc]) = Inr (l, s1)"
    and 2: "HostCall_args cfg as s1 = Inr s'"
    by (auto simp: bind_eq_Inr)
  from 1 have "uses_le s s1"
    by (auto split: if_splits dest: uses_le_UseScratchHostLocReg uses_le_ScratchHostLocReg)
  with Cons.IH [OF 2] show ?case by (rule uses_le_trans [rotated])
qed

lemma uses_le_HostCall_others: "HostCall_others cfg ls s = Inr s' \<Longrightarrow> uses_le s s'"
proof (induction ls arbitrary: s)
  case Nil
  then show ?case by simp
next
  case (Cons l ls)
  then obtain r s1 where 1: "ScratchHostLocReg cfg s [l] = Inr (r, s1)"
    and 2: "HostCall_others cfg ls s1 = Inr s'"
    by (auto simp: bind_eq_Inr)
  from uses_le_ScratchHostLocReg [OF 1] Cons.IH [OF 2] show ?case by (rule uses_le_trans)
qed

lemma uses_le_HostCall:
  assumes "HostCall cfg s r a0 a1 a2 a3 = Inr s'"
  shows "uses_le s s'"
proof -
  from assms obtain others l s1 s2 s3 where
    1: "ScratchHostLocReg cfg s [ABI_RETURN cfg] = Inr (l, s1)"
    and 2: "(case r of Some d \<Rightarrow> DefineValue cfg s1 d l | None \<Rightarrow> Inr s1) = Inr s2"
    and 3: "HostCall_args cfg (zip [a0, a1, a2, a3] (args_hostloc cfg)) s2 = Inr s3"
    and 4: "HostCall_others cfg others s3 = Inr s'"
    by (auto simp: HostCall_def bind_eq_Inr)
  from 2 have "uses_le s1 s2" by (auto split: option.splits dest: uses_le_DefineValue)
  with 1 3 4 show ?thesis
    by (blast intro: uses_le_trans
        dest: uses_le_ScratchHostLocReg uses_le_HostCall_args uses_le_HostCall_others)
qed

lemma uses_le_UseHostLoc:
  assumes "UseHostLoc cfg s i ds = Inr (r, s')"
  shows "uses_le s s'"
proof -
  from assms obtain cur where
    rest: "(if cur \<in> set ds then
         let was_being_used = IsLocked (LocInfo s cur) in
         bind (ASSERT (IsUse (LocInfo s cur) \<or> IsIdle (LocInfo s cur))
                 (AssertionFailed, s)) (\<lambda>_.
           let s1 = set_LocInfo s cur (Lock (LocInfo s cur)) in
           bind (DecrementRemainingUses s1 i) (\<lambda>s2.
           bind (DEBUG_ASSERT cfg (IsUse (LocInfo s2 cur)) (AssertionFailed, s2)) (\<lambda>_.
             Inr ((cur, was_being_used), s2))))
       else if HostLocIsSpill cur then
         let was_being_used = IsLocked (LocInfo s cur);
             s1 = set_LocInfo s cur (Lock (LocInfo s cur))
         in
         bind (DecrementRemainingUses s1 i) (\<lambda>s2.
         bind (DEBUG_ASSERT cfg (IsUse (LocInfo s2 cur)) (AssertionFailed, s2)) (\<lambda>_.
           Inr ((cur, was_being_used), s2)))
       else if HostLocIsRegister cur then
         bind (SelectARegister s ds) (\<lambda>new.
         bind (ASSERT (IsIdle (LocInfo s cur)) (AssertionFailed, s)) (\<lambda>_.
         bind (EmitExchange s new cur) (\<lambda>s1.
           let s2 = set_LocInfo (set_LocInfo s1 new (LocInfo s1 cur)) cur (LocInfo s1 new);
               s3 = set_LocInfo s2 new (Lock (LocInfo s2 new))
           in
           bind (DecrementRemainingUses s3 i) (\<lambda>s4.
           bind (DEBUG_ASSERT cfg (IsUse (LocInfo s4 new)) (AssertionFailed, s4)) (\<lambda>_.
             Inr ((new, False), s4))))))
       else Inl (InvalidCurrentLocation, s)) = Inr (r, s')"
    by (auto simp: UseHostLoc_def bind_eq_Inr)
  show ?thesis
  proof (cases "cur \<in> set ds \<or> HostLocIsSpill cur")
    case True
    with rest show ?thesis
      by (auto simp: bind_eq_Inr Let_def split: if_splits
          dest!: uses_le_Decrement simp: uses_le_def)
  next
    case False
    with rest obtain new s1 where e: "EmitExchange s new cur = Inr s1"
      and d: "DecrementRemainingUses
        (set_LocInfo (set_LocInfo (set_LocInfo s1 new (LocInfo s1 cur)) cur (LocInfo s1 new)) new
           (Lock (LocInfo (set_LocInfo (set_LocInfo s1 new (LocInfo s1 cur)) cur (LocInfo s1 new)) new)))
        i = Inr s'"
      by (auto simp: bind_eq_Inr Let_def split: if_splits)
    from uses_le_Decrement [OF d] use_count_EmitExchange [OF e] show ?thesis
      by (simp add: uses_le_def)
  qed
qed

lemma exec_uses_le:
  assumes "exec cfg op s = Inr s'"
  shows "uses_le s s'"
proof (cases op)
  case (OpRegisterAddDef d u)
  with assms show ?thesis by (auto dest: uses_le_RegisterAddDef)
next
  case (OpUseDefOpArgHostLocReg u d ds)
  with assms show ?thesis by (auto simp: bind_eq_Inr dest: uses_le_UseDefOpArgHostLocReg)
next
  case (OpUseHostLocReg u ds)
  with assms show ?thesis by (auto simp: bind_eq_Inr dest: uses_le_UseHostLocReg)
next
  case (OpUseOpArg u ds)
  with assms show ?thesis by (auto simp: bind_eq_Inr dest: uses_le_UseOpArg)
next
  case (OpUseScratchHostLocReg u ds)
  with assms show ?thesis by (auto simp: bind_eq_Inr dest: uses_le_UseScratchHostLocReg)
next
  case (OpScratchHostLocReg ds)
  with assms show ?thesis by (auto simp: bind_eq_Inr dest: uses_le_ScratchHostLocReg)
next
  case (OpHostCall r a0 a1 a2 a3)
  with assms show ?thesis by (auto dest: uses_le_HostCall)
next
  case (OpDefineValue d l)
  with assms show ?thesis by (auto dest: uses_le_DefineValue)
next
  case (OpSpillRegister l)
  with assms show ?thesis by (auto dest!: use_count_SpillRegister intro: uses_le_same)
next
  case (OpMove to "from")
  with assms show ?thesis by (auto dest!: use_count_Move intro: uses_le_same)
next
  case (OpExchange a b)
  with assms show ?thesis by (auto dest!: use_count_Exchange intro: uses_le_same)
next
  case (OpMoveOutOfTheWay l)
  with assms show ?thesis by (auto dest!: use_count_MoveOutOfTheWay intro: uses_le_same)
next
  case (OpUseHostLoc u ds)
  with assms show ?thesis by (auto simp: bind_eq_Inr dest: uses_le_UseHostLoc)
next
  case OpEndOfAllocScope
  with assms show ?thesis by (auto simp: EndOfAllocScope_def intro: uses_le_same)
qed

lemma exec_resident:
  assumes "exec cfg op s = Inr s'" and "resident s' v"
  shows "resident s v \<or> value_defined_by op = Some v"
proof (cases "value_defined_by op")
  case (Some d)
  with exec_cases [OF assms(1)] have "defined d s s'" by simp
  with assms(2) Some show ?thesis by (auto simp: defined_def)
next
  case None
  with exec_cases [OF assms(1)]
  consider "s' = EndOfAllocScope s" | "moved s s'" by auto
  then show ?thesis
  proof cases
    case 1
    with assms(2) show ?thesis by (auto simp: resident_vals EndOfAllocScope_vals)
  next
    case 2
    with assms(2) show ?thesis by (auto simp: moved_def)
  qed
qed

lemma exec_defines:
  assumes "exec cfg op s = Inr s'" and "at_most_one_HostLoc s"
    and "value_defined_by op = Some d" and "\<not> resident s d"
  shows "exactly_one_HostLoc s' d"
proof -
  from exec_cases [OF assms(1)] assms(3) have "defined d s s'" by simp
  with assms(2,4) have "at_most_one_HostLoc s'" "resident s' d" by (auto simp: defined_def)
  then show ?thesis by (simp add: exactly_one_iff)
qed

text \<open>
  C2, as amended. Every allocator operation that completes keeps every value in at most
  one HostLoc, provided a defining operation defines a value that is not resident yet. After
  it, the value it has defined is resident in exactly one HostLoc, and so is every value
  that was resident before it and has remaining uses after it. No value becomes resident
  except the one the operation defines, and no remaining-use count is raised.
\<close>

theorem allocator_keeps_one_HostLoc:
  assumes "exec cfg op s = Inr s'"
    and "at_most_one_HostLoc s"
    and "\<forall>d. value_defined_by op = Some d \<longrightarrow> \<not> resident s d"
  shows "at_most_one_HostLoc s' \<and>
         (\<forall>v. resident s v \<and> 0 < use_count s' v \<longrightarrow> exactly_one_HostLoc s' v) \<and>
         (\<forall>d. value_defined_by op = Some d \<longrightarrow> exactly_one_HostLoc s' d) \<and>
         (\<forall>v. resident s' v \<longrightarrow> resident s v \<or> value_defined_by op = Some v) \<and>
         (\<forall>v. use_count s' v \<le> use_count s v)"
  using exec_keeps [OF assms] exec_defines [OF assms(1,2)] assms(3) exec_resident [OF assms(1)]
    exec_uses_le [OF assms(1)]
  by (auto simp: exactly_one_iff uses_le_def)

text \<open>
  The same along a run, from a state in which every value is in at most one HostLoc, such
  as the state after \<open>Reset\<close>: at every point between two operations, every value that was
  resident at the start or has been defined since, and has remaining uses, is resident in
  exactly one HostLoc.
\<close>

lemma run_keeps_defined_values:
  assumes "run cfg ops s = Inr s'" and "at_most_one_HostLoc s" and "fresh_defs cfg ops s"
  shows "at_most_one_HostLoc s' \<and> uses_le s s' \<and>
         (\<forall>v. (resident s v \<or> (\<exists>op \<in> set ops. value_defined_by op = Some v)) \<and>
               0 < use_count s' v \<longrightarrow> exactly_one_HostLoc s' v)"
  using assms
proof (induction ops arbitrary: s)
  case Nil
  then show ?case by (auto simp: exactly_one_iff)
next
  case (Cons op ops)
  from Cons.prems(1) obtain s1 where 1: "exec cfg op s = Inr s1" and 2: "run cfg ops s1 = Inr s'"
    by (auto simp: bind_eq_Inr)
  from Cons.prems(3) 1 have f: "\<forall>d. value_defined_by op = Some d \<longrightarrow> \<not> resident s d"
    and f1: "fresh_defs cfg ops s1"
    by auto
  from exec_keeps [OF 1 Cons.prems(2) f] have a1: "at_most_one_HostLoc s1"
    and k: "\<forall>v. resident s v \<and> 0 < use_count s1 v \<longrightarrow> resident s1 v" by auto
  from Cons.IH [OF 2 a1 f1] have a': "at_most_one_HostLoc s'" and u2: "uses_le s1 s'"
    and ih: "\<forall>v. (resident s1 v \<or> (\<exists>op \<in> set ops. value_defined_by op = Some v)) \<and>
               0 < use_count s' v \<longrightarrow> exactly_one_HostLoc s' v" by auto
  from exec_uses_le [OF 1] have u1: "uses_le s s1" .
  have "exactly_one_HostLoc s' v"
    if v: "resident s v \<or> (\<exists>x \<in> set (op # ops). value_defined_by x = Some v)"
      and p: "0 < use_count s' v" for v
  proof -
    from p u2 have p1: "0 < use_count s1 v" by (auto simp: uses_le_def intro: less_le_trans)
    from v consider "resident s v" | "value_defined_by op = Some v"
      | "\<exists>x \<in> set ops. value_defined_by x = Some v" by auto
    then show ?thesis
    proof cases
      case 1
      with k p1 have "resident s1 v" by simp
      with ih p show ?thesis by simp
    next
      case 2
      with exec_defines [OF 1 Cons.prems(2) 2] f have "exactly_one_HostLoc s1 v" by simp
      then have "resident s1 v" by (auto simp: exactly_one_HostLoc_def resident_def)
      with ih p show ?thesis by simp
    next
      case 3
      with ih p show ?thesis by simp
    qed
  qed
  with a' u1 u2 show ?case by (auto intro: uses_le_trans)
qed

lemma initial_at_most_one: "at_most_one_HostLoc (initial uses)"
  by (simp add: at_most_one_HostLoc_def initial_def ContainsValue_def LocInfo_def empty_info_def)

lemma I3_example_reached:
  "run sysv [OpScratchHostLocReg [RAX], OpDefineValue 0 RAX, OpEndOfAllocScope]
     (initial (\<lambda>_. 1)) = Inr I3_example"
  by (simp add: alloc_defs Let_def I3_example_def fun_eq_iff)

lemma I3_example_nowhere: "\<not> resident I3_example 1"
  by (simp add: resident_def I3_example_def ContainsValue_def LocInfo_def empty_info_def)

text \<open>
  The first instruction of a block has been emitted: its value is in RAX. The second
  instruction has one use further down and has not been emitted yet, so its value has a
  remaining use and is resident nowhere.
\<close>

theorem I3_fails_before_definition:
  "run sysv [OpScratchHostLocReg [RAX], OpDefineValue 0 RAX, OpEndOfAllocScope]
     (initial (\<lambda>_. 1)) = Inr I3_example \<and>
   use_count I3_example 1 = 1 \<and>
   \<not> exactly_one_HostLoc I3_example 1 \<and>
   \<not> I3_as_claimed I3_example"
proof -
  have u: "use_count I3_example 1 = 1" by (simp add: I3_example_def)
  from I3_example_nowhere have n: "\<not> exactly_one_HostLoc I3_example 1"
    by (auto simp: exactly_one_HostLoc_def resident_def)
  have "\<not> I3_as_claimed I3_example"
  proof
    assume "I3_as_claimed I3_example"
    with u have "exactly_one_HostLoc I3_example 1" by (simp add: I3_as_claimed_def)
    with n show False ..
  qed
  with u n I3_example_reached show ?thesis by simp
qed

lemma I3_example_at_most_one: "at_most_one_HostLoc I3_example"
  by (auto simp: at_most_one_HostLoc_def I3_example_def ContainsValue_def LocInfo_def
      empty_info_def split: if_splits)

lemma I3_example_resident: "resident I3_example 0"
  by (auto simp: resident_def I3_example_def ContainsValue_def LocInfo_def intro: exI [of _ RAX])

text \<open>
  From that state, reserving RAX spills the first value, which keeps its use; and the
  second instruction, which reads the first value and defines its own in RCX, leaves its
  value there.
\<close>

lemma I3_example_scratch:
  "\<exists>s'. exec sysv (OpScratchHostLocReg [RAX]) I3_example = Inr s' \<and> use_count s' 0 = 1 \<and>
        ContainsValue (LocInfo s' (Spill 0)) 0 \<and> IsScratch (LocInfo s' RAX)"
  by (simp add: alloc_defs Let_def I3_example_def)

lemma I3_example_define:
  "\<exists>s'. exec sysv (OpUseDefOpArgHostLocReg (InstRef 0) 1 [RCX]) I3_example = Inr s' \<and>
        ContainsValue (LocInfo s' RCX) 1 \<and> ContainsValue (LocInfo s' RAX) 0"
  by (simp add: alloc_defs Let_def I3_example_def UseDefOpArgHostLocReg_def IsLastUse_def)

theorem allocator_keeps_one_HostLoc_witness:
  "at_most_one_HostLoc I3_example \<and> resident I3_example 0 \<and> \<not> resident I3_example 1 \<and>
   (\<exists>s'. exec sysv (OpScratchHostLocReg [RAX]) I3_example = Inr s' \<and> use_count s' 0 = 1 \<and>
      ContainsValue (LocInfo s' (Spill 0)) 0 \<and>
      at_most_one_HostLoc s' \<and> exactly_one_HostLoc s' 0) \<and>
   (\<exists>s'. exec sysv (OpUseDefOpArgHostLocReg (InstRef 0) 1 [RCX]) I3_example = Inr s' \<and>
      ContainsValue (LocInfo s' RCX) 1 \<and>
      at_most_one_HostLoc s' \<and> exactly_one_HostLoc s' 1)"
proof -
  from I3_example_scratch obtain s' where
    s': "exec sysv (OpScratchHostLocReg [RAX]) I3_example = Inr s'" "use_count s' 0 = 1"
      "ContainsValue (LocInfo s' (Spill 0)) 0"
    by blast
  from allocator_keeps_one_HostLoc [OF s'(1) I3_example_at_most_one] I3_example_resident s'(2)
  have 1: "at_most_one_HostLoc s'" "exactly_one_HostLoc s' 0" by auto
  from I3_example_define obtain s2 where
    s2: "exec sysv (OpUseDefOpArgHostLocReg (InstRef 0) 1 [RCX]) I3_example = Inr s2"
      "ContainsValue (LocInfo s2 RCX) 1"
    by blast
  from allocator_keeps_one_HostLoc [OF s2(1) I3_example_at_most_one] I3_example_nowhere
  have 2: "at_most_one_HostLoc s2" "exactly_one_HostLoc s2 1" by auto
  from s' 1 s2 2 I3_example_at_most_one I3_example_resident I3_example_nowhere
  show ?thesis by blast
qed

section \<open>An exchange of two vector registers\<close>

text \<open>
  C4, as the code has it. The value is in an unlocked vector register outside the desired
  list, and \<open>SelectARegister\<close> picks an occupied vector register: \<open>UseHostLocReg\<close> asks for an
  exchange of the two and fails by the assertion of \<open>EmitExchange\<close>.
\<close>

theorem UseHostLocReg_reaches_XMM_exchange:
  assumes "DecrementRemainingUses s i = Inr s1"
    and "ValueLocation cfg s1 i = Some cur"
    and "cur \<notin> set ds" and "\<not> IsLocked (LocInfo s1 cur)"
    and "SelectARegister s1 ds = Inr dest"
    and "HostLocIsXMM cur" and "HostLocIsXMM dest" and "IsRegisterOccupied s1 dest"
  shows "UseHostLocReg cfg s (InstRef i) ds =
           Inl (ExchangingXMM,
                set_LocInfo (set_LocInfo s1 dest (LocInfo s1 cur)) cur (LocInfo s1 dest))"
proof -
  from assms(2) have "ContainsValue (LocInfo s1 cur) i"
    by (auto simp: ValueLocation_def dest!: find_Some_iff [THEN iffD1])
  then have ne: "\<not> IsEmptyInfo (LocInfo s1 cur)"
    by (auto simp: ContainsValue_def IsEmptyInfo_def)
  from SelectARegister_Inr [OF assms(5)] have ul: "\<not> IsLocked (LocInfo s1 dest)" by simp
  from assms(8) have nd: "\<not> IsEmptyInfo (LocInfo s1 dest)" by (simp add: IsRegisterOccupied_def)
  have "Exchange s1 dest cur =
          Inl (ExchangingXMM,
               set_LocInfo (set_LocInfo s1 dest (LocInfo s1 cur)) cur (LocInfo s1 dest))"
    using ne nd ul assms(4,6,7)
    by (simp add: Exchange_def ASSERT_def EmitExchange_def HostLocIsGPR_def HostLocIsXMM_def
        all_gprs_def all_xmms_def) auto
  with assms show ?thesis
    by (simp add: UseHostLocReg_def UseHostLocReg_Inst_def deref_def Let_def
        IsSameHostLocClass_def)
qed

section \<open>The general facts on the examples\<close>

lemma locked_example_reached:
  "run sysv [OpScratchHostLocReg [RAX], OpDefineValue 0 RAX, OpEndOfAllocScope,
             OpUseHostLocReg (InstRef 0) [RAX]] (initial (\<lambda>_. 3)) = Inr locked_example"
  by (simp add: alloc_defs Let_def locked_example_def fun_eq_iff)

lemma locked_example_use:
  "\<exists>l s'. UseHostLocReg sysv locked_example (InstRef 0) [RCX] = Inr (l, s')"
  by (simp add: alloc_defs Let_def locked_example_def)

lemma locked_example_location: "ValueLocation sysv locked_example 0 = Some RAX"
  by (simp add: alloc_defs locked_example_def)

theorem UseHostLocReg_decrements_witness:
  "ValueLocation sysv locked_example 0 = Some RAX \<and> IsLocked (LocInfo locked_example RAX) \<and>
   use_count locked_example 0 = 2 \<and>
   (\<exists>l s'. UseHostLocReg sysv locked_example (InstRef 0) [RCX] = Inr (l, s') \<and>
      use_count s' 0 = 0)"
proof -
  from locked_example_use obtain l s' where
    u: "UseHostLocReg sysv locked_example (InstRef 0) [RCX] = Inr (l, s')" by blast
  have k: "IsLocked (LocInfo locked_example RAX)"
    by (simp add: locked_example_def IsLocked_def LocInfo_def)
  have c: "use_count locked_example 0 = 2" by (simp add: locked_example_def)
  from UseHostLocReg_decrements [OF u locked_example_location] k c
  have "use_count s' 0 = 0" by simp
  with u k c locked_example_location show ?thesis by blast
qed

lemma xmm_example_reached:
  "run sysv [OpScratchHostLocReg [XMM0], OpDefineValue 0 XMM0, OpEndOfAllocScope,
             OpScratchHostLocReg [XMM1], OpDefineValue 1 XMM1, OpEndOfAllocScope]
     (initial (\<lambda>_. 2)) = Inr xmm_example"
  by (simp add: alloc_defs Let_def xmm_example_def fun_eq_iff)

theorem UseHostLocReg_reaches_XMM_exchange_witness:
  "ValueLocation sysv xmm_example 0 = Some XMM0 \<and> HostLocIsXMM XMM0 \<and> HostLocIsXMM XMM1 \<and>
   IsRegisterOccupied xmm_example XMM1 \<and>
   (\<exists>s'. UseHostLocReg sysv xmm_example (InstRef 0) [XMM1] = Inl (ExchangingXMM, s'))"
proof -
  let ?s1 = "xmm_example\<lparr>use_count := (use_count xmm_example)(0 := 1)\<rparr>"
  have d: "DecrementRemainingUses xmm_example 0 = Inr ?s1"
    by (simp add: DecrementRemainingUses_def xmm_example_def)
  have v: "ValueLocation sysv ?s1 0 = Some XMM0"
    by (simp add: alloc_defs xmm_example_def)
  have v0: "ValueLocation sysv xmm_example 0 = Some XMM0"
    by (simp add: alloc_defs xmm_example_def)
  have n: "XMM0 \<notin> set [XMM1]" by simp
  have u: "\<not> IsLocked (LocInfo ?s1 XMM0)"
    by (simp add: xmm_example_def IsLocked_def LocInfo_def)
  have sel: "SelectARegister ?s1 [XMM1] = Inr XMM1"
    by (simp add: alloc_defs Let_def xmm_example_def)
  have x: "HostLocIsXMM XMM0" "HostLocIsXMM XMM1"
    by (simp_all add: HostLocIsXMM_def all_xmms_def)
  have o: "IsRegisterOccupied ?s1 XMM1" "IsRegisterOccupied xmm_example XMM1"
    by (simp_all add: alloc_defs xmm_example_def)
  from UseHostLocReg_reaches_XMM_exchange [OF d v n u sel x o(1)] v0 x o(2)
  show ?thesis by blast
qed

section \<open>The pass comes to an instruction\<close>

lemma stable_refl [simp]: "stable_at i b b"
  by (simp add: stable_at_def)

lemma subst_use_imm: "IsImmediate a \<Longrightarrow> subst_use k v a = a"
  by (cases a) (simp_all add: subst_use_def)

lemma stable_Replace:
  assumes "stable_at i b b1"
  shows "stable_at i b (Inst_ReplaceUsesWith b1 k v)"
  using assms by (auto simp: stable_at_def nth_Inst_ReplaceUsesWith subst_use_imm)

lemma stable_ReplaceW: "stable_at i b b1 \<Longrightarrow> stable_at i b (ReplaceUsesWith b1 k w x)"
  by (simp add: ReplaceUsesWith_def stable_Replace)

lemma stable_update:
  "stable_at i b b1 \<Longrightarrow> k \<noteq> i \<Longrightarrow> stable_at i b (b1[k := x])"
  by (simp add: stable_at_def)

lemmas stable_intros = stable_Replace stable_ReplaceW stable_update

lemma FoldCommutative_stable:
  "FoldCommutative b k w f = Inr (c, b') \<Longrightarrow> k \<noteq> i \<Longrightarrow> stable_at i b b'"
  by (auto simp: FoldCommutative_def Let_def bind_eq_Inr SetArg_eq_Inr split: if_splits
      intro!: stable_intros)

lemma FoldAND_stable: "FoldAND b k w = Inr b' \<Longrightarrow> k \<noteq> i \<Longrightarrow> stable_at i b b'"
  by (auto simp: FoldAND_def bind_eq_Inr split: if_splits
      intro!: stable_intros dest: FoldCommutative_stable [where i = i])

lemma FoldOR_stable: "FoldOR b k w = Inr b' \<Longrightarrow> k \<noteq> i \<Longrightarrow> stable_at i b b'"
  by (auto simp: FoldOR_def bind_eq_Inr split: if_splits
      intro!: stable_intros dest: FoldCommutative_stable [where i = i])

lemma FoldEOR_stable: "FoldEOR b k w = Inr b' \<Longrightarrow> k \<noteq> i \<Longrightarrow> stable_at i b b'"
  by (auto simp: FoldEOR_def bind_eq_Inr split: if_splits
      intro!: stable_intros dest: FoldCommutative_stable [where i = i])

lemma FoldMultiply_stable: "FoldMultiply b k w = Inr b' \<Longrightarrow> k \<noteq> i \<Longrightarrow> stable_at i b b'"
  by (auto simp: FoldMultiply_def bind_eq_Inr split: if_splits
      intro!: stable_intros dest: FoldCommutative_stable [where i = i])

lemma FoldShifts_stable: "FoldShifts b k = Inr b' \<Longrightarrow> k \<noteq> i \<Longrightarrow> stable_at i b b'"
  by (auto simp: FoldShifts_def Let_def bind_eq_Inr SetArg_eq_Inr
      split: if_splits option.splits intro!: stable_intros)

lemma FoldDivide_stable: "FoldDivide b k w sg = Inr b' \<Longrightarrow> stable_at i b b'"
  by (auto simp: FoldDivide_def bind_eq_Inr split: if_splits intro!: stable_intros)

lemma FoldNOT_stable: "FoldNOT b k w = Inr b' \<Longrightarrow> stable_at i b b'"
  by (auto simp: FoldNOT_def bind_eq_Inr split: if_splits intro!: stable_intros)

lemma FoldByteReverse_stable: "FoldByteReverse b k op = Inr b' \<Longrightarrow> stable_at i b b'"
  by (auto simp: FoldByteReverse_def bind_eq_Inr split: if_splits intro!: stable_intros)

lemma FoldMostSignificantWord_stable: "FoldMostSignificantWord b k = Inr b' \<Longrightarrow> stable_at i b b'"
  by (auto simp: FoldMostSignificantWord_def Let_def bind_eq_Inr
      split: if_splits option.splits intro!: stable_intros)

lemma FoldLeastSignificantByte_stable: "FoldLeastSignificantByte b k = Inr b' \<Longrightarrow> stable_at i b b'"
  by (auto simp: FoldLeastSignificantByte_def bind_eq_Inr split: if_splits intro!: stable_intros)

lemma FoldLeastSignificantHalf_stable: "FoldLeastSignificantHalf b k = Inr b' \<Longrightarrow> stable_at i b b'"
  by (auto simp: FoldLeastSignificantHalf_def bind_eq_Inr split: if_splits intro!: stable_intros)

lemma FoldLeastSignificantWord_stable: "FoldLeastSignificantWord b k = Inr b' \<Longrightarrow> stable_at i b b'"
  by (auto simp: FoldLeastSignificantWord_def bind_eq_Inr split: if_splits intro!: stable_intros)

lemma FoldMostSignificantBit_stable: "FoldMostSignificantBit b k = Inr b' \<Longrightarrow> stable_at i b b'"
  by (auto simp: FoldMostSignificantBit_def bind_eq_Inr split: if_splits intro!: stable_intros)

lemma FoldSignExtendXToWord_stable: "FoldSignExtendXToWord b k = Inr b' \<Longrightarrow> stable_at i b b'"
  by (auto simp: FoldSignExtendXToWord_def bind_eq_Inr split: if_splits intro!: stable_intros)

lemma FoldSignExtendXToLong_stable: "FoldSignExtendXToLong b k = Inr b' \<Longrightarrow> stable_at i b b'"
  by (auto simp: FoldSignExtendXToLong_def bind_eq_Inr split: if_splits intro!: stable_intros)

lemma FoldZeroExtendXToWord_stable: "FoldZeroExtendXToWord b k = Inr b' \<Longrightarrow> stable_at i b b'"
  by (auto simp: FoldZeroExtendXToWord_def bind_eq_Inr split: if_splits intro!: stable_intros)

lemma FoldZeroExtendXToLong_stable: "FoldZeroExtendXToLong b k = Inr b' \<Longrightarrow> stable_at i b b'"
  by (auto simp: FoldZeroExtendXToLong_def bind_eq_Inr split: if_splits intro!: stable_intros)

lemmas fold_stable = FoldAND_stable FoldOR_stable FoldEOR_stable FoldMultiply_stable
  FoldShifts_stable FoldDivide_stable FoldNOT_stable FoldByteReverse_stable
  FoldMostSignificantWord_stable FoldLeastSignificantByte_stable
  FoldLeastSignificantHalf_stable FoldLeastSignificantWord_stable
  FoldMostSignificantBit_stable FoldSignExtendXToWord_stable FoldSignExtendXToLong_stable
  FoldZeroExtendXToWord_stable FoldZeroExtendXToLong_stable

lemma FoldInst_stable:
  "FoldInst b k = Inr b' \<Longrightarrow> k \<noteq> i \<Longrightarrow> stable_at i b b'"
  by (cases "opcode (b ! k)") (auto simp: FoldInst_def dest: fold_stable [where i = i])

lemma stable_trans: "stable_at i b b1 \<Longrightarrow> stable_at i b1 b2 \<Longrightarrow> stable_at i b b2"
  by (auto simp: stable_at_def)

lemma FoldInsts_stable:
  "FoldInsts ks b = Inr b' \<Longrightarrow> i \<notin> set ks \<Longrightarrow> stable_at i b b'"
proof (induction ks arbitrary: b)
  case Nil
  then show ?case by simp
next
  case (Cons k ks)
  then obtain b1 where 1: "FoldInst b k = Inr b1" and 2: "FoldInsts ks b1 = Inr b'"
    by (auto simp: bind_eq_Inr)
  from FoldInst_stable [OF 1, of i] Cons.prems(2) have "stable_at i b b1" by simp
  moreover from Cons.IH [OF 2] Cons.prems(2) have "stable_at i b1 b'" by simp
  ultimately show ?case by (rule stable_trans)
qed

lemma FoldInsts_append:
  "FoldInsts (xs @ ys) b = bind (FoldInsts xs b) (FoldInsts ys)"
proof (induction xs arbitrary: b)
  case Nil
  then show ?case by simp
next
  case (Cons x xs)
  then show ?case by (cases "FoldInst b x") simp_all
qed

text \<open>
  The pass is the run up to instruction \<open>i\<close>, the step at \<open>i\<close> and the run after it; when
  it comes to \<open>i\<close>, the instruction has the opcode and the immediate operands it had in the
  block the pass was given.
\<close>

lemma ConstantPropagation_split:
  "i < length b \<Longrightarrow>
   ConstantPropagation b =
     bind (FoldInsts [0 ..< i] b) (\<lambda>b1.
     bind (FoldInst b1 i) (FoldInsts [Suc i ..< length b]))"
proof -
  assume "i < length b"
  then have k: "length b = i + (length b - i)" by simp
  have "[0 ..< i + (length b - i)] = [0 ..< i] @ [i ..< i + (length b - i)]"
    by (rule upt_add_eq_append) simp
  with k \<open>i < length b\<close> have "[0 ..< length b] = [0 ..< i] @ i # [Suc i ..< length b]"
    by (simp add: upt_conv_Cons)
  moreover have "FoldInsts (i # ks) = (\<lambda>b1. bind (FoldInst b1 i) (FoldInsts ks))" for ks
    by (rule ext) simp
  ultimately show ?thesis
    by (simp add: ConstantPropagation_def FoldInsts_append)
qed

lemma FoldInsts_prefix_stable:
  "FoldInsts [0 ..< i] b = Inr b1 \<Longrightarrow> stable_at i b b1"
  by (erule FoldInsts_stable) simp

lemma UseCount_Replace:
  assumes "v \<noteq> InstRef i"
  shows "UseCount (Inst_ReplaceUsesWith b i v) i = 0"
proof -
  have "count_list (map (subst_use i v) xs) (InstRef i) = 0" for xs
    using assms by (induction xs) (auto simp: subst_use_def)
  then show ?thesis
    by (simp add: UseCount_def Inst_ReplaceUsesWith_def comp_def)
qed

lemma UseCount_subst:
  assumes "length b2 = length b1"
    and "\<forall>j < length b1. args (b2 ! j) = map (\<lambda>a. if a = InstRef i then v else a) (args (b1 ! j))"
    and "v \<noteq> InstRef i"
  shows "UseCount b2 i = 0"
proof -
  have c: "count_list (map (\<lambda>a. if a = InstRef i then v else a) xs) (InstRef i) = 0" for xs
    using assms(3) by (induction xs) auto
  have "\<forall>inst \<in> set b2. count_list (args inst) (InstRef i) = 0"
  proof
    fix inst assume "inst \<in> set b2"
    then obtain j where "j < length b2" "inst = b2 ! j" by (auto simp: in_set_conv_nth)
    with assms(1,2) c show "count_list (args inst) (InstRef i) = 0" by simp
  qed
  then show ?thesis by (simp add: UseCount_def)
qed

lemma FoldInsts_wf:
  "FoldInsts ks b = Inr b' \<Longrightarrow> wf_block b \<Longrightarrow> \<forall>k \<in> set ks. k < length b \<Longrightarrow>
   wf_block b' \<and> length b' = length b"
proof (induction ks arbitrary: b)
  case Nil
  then show ?case by simp
next
  case (Cons k ks)
  then obtain b1 where 1: "FoldInst b k = Inr b1" and 2: "FoldInsts ks b1 = Inr b'"
    by (auto simp: bind_eq_Inr)
  from Cons.prems(3) have k: "k < length b" by simp
  from FoldInst_step [OF 1 Cons.prems(2) k] have w: "wf_block b1" "length b1 = length b"
    by (auto simp: step_ok_def)
  with Cons.IH [OF 2 w(1)] Cons.prems(3) show ?case by simp
qed

section \<open>Division by zero, in the pass\<close>

text \<open>
  C3. The pass has come to instruction \<open>i\<close>, a division (SignedDiv32/64, UnsignedDiv32/64)
  whose second operand in the block the pass was given is the immediate zero. Then the
  step at \<open>i\<close> completes without a failure and the pass goes on from the block it leaves;
  in that block every operand that referred to the instruction is the immediate 0 of the
  instruction's width (\<open>U32 0\<close> for the 32-bit opcodes, \<open>U64 0\<close> for the 64-bit ones), no
  operand refers to the instruction any more, and nothing else has changed. Nothing is
  asked of the dividend.
\<close>

theorem ConstantPropagation_div_by_zero:
  assumes "i < length b"
    and "opcode (b ! i) \<in> {SignedDiv32, SignedDiv64, UnsignedDiv32, UnsignedDiv64}"
    and "1 < length (args (b ! i))"
    and "IsZero (args (b ! i) ! 1)"
    and "FoldInsts [0 ..< i] b = Inr b1"
  shows "\<exists>b2. FoldInst b1 i = Inr b2 \<and>
           ConstantPropagation b = FoldInsts [Suc i ..< length b] b2 \<and>
           length b2 = length b \<and>
           (\<forall>j < length b. opcode (b2 ! j) = opcode (b1 ! j) \<and>
              args (b2 ! j) =
                map (\<lambda>a. if a = InstRef i
                          then (if opcode (b ! i) \<in> {SignedDiv32, UnsignedDiv32}
                                then U32 0 else U64 0)
                          else a) (args (b1 ! j))) \<and>
           UseCount b2 i = 0"
proof -
  from FoldInsts_prefix_stable [OF assms(5)] assms(1)
  have st: "length b1 = length b" "opcode (b1 ! i) = opcode (b ! i)"
    "length (args (b1 ! i)) = length (args (b ! i))"
    "\<forall>n < length (args (b ! i)). IsImmediate (args (b ! i) ! n) \<longrightarrow>
       args (b1 ! i) ! n = args (b ! i) ! n"
    by (auto simp: stable_at_def)
  from assms(4) have "IsImmediate (args (b ! i) ! 1)"
    by (simp add: IsZero_def IsUnsignedImmediate_def)
  with st(4) assms(3) have a1: "args (b1 ! i) ! 1 = args (b ! i) ! 1" by simp
  let ?z = "if opcode (b ! i) \<in> {SignedDiv32, UnsignedDiv32} then U32 0 else U64 0"
  from FoldInst_div_by_zero [of i b1] assms(1-4) st a1
  obtain b2 where b2: "FoldInst b1 i = Inr b2" "length b2 = length b1"
    "\<forall>j < length b1. opcode (b2 ! j) = opcode (b1 ! j) \<and>
       args (b2 ! j) = map (\<lambda>a. if a = InstRef i then ?z else a) (args (b1 ! j))"
    by auto
  have "?z \<noteq> InstRef i" by simp
  with UseCount_subst [OF b2(2), of i ?z] b2(3) have "UseCount b2 i = 0" by blast
  moreover from ConstantPropagation_split [OF assms(1)] assms(5) b2(1)
  have "ConstantPropagation b = FoldInsts [Suc i ..< length b] b2" by simp
  ultimately show ?thesis using b2 st(1) by auto
qed

lemma div_example_prefix:
  "FoldInsts [0 ..< 1] div_example = Inr div_example"
  by (simp add: div_example_def FoldInst_def)

theorem ConstantPropagation_div_by_zero_witness:
  "IsZero (args (div_example ! 1) ! 1) \<and>
   FoldInsts [0 ..< 1] div_example = Inr div_example \<and>
   (\<exists>b2. FoldInst div_example 1 = Inr b2 \<and>
      args (b2 ! 2) = [U32 0, InstRef 0] \<and> UseCount b2 1 = 0)"
proof -
  have z: "IsZero (args (div_example ! 1) ! 1)"
    by (simp add: div_example_def IsZero_def IsUnsignedImmediate_def)
  from ConstantPropagation_div_by_zero [of 1 div_example div_example] z div_example_prefix
  obtain b2 where b2: "FoldInst div_example 1 = Inr b2"
    "ConstantPropagation div_example = FoldInsts [Suc 1 ..< length div_example] b2"
    "\<forall>j < length div_example.
        args (b2 ! j) =
          map (\<lambda>a. if a = InstRef 1
                    then (if opcode (div_example ! 1) \<in> {SignedDiv32, UnsignedDiv32}
                          then U32 0 else U64 0)
                    else a) (args (div_example ! j))"
    "UseCount b2 1 = 0"
    by (auto simp: div_example_def)
  from b2(3) have "args (b2 ! 2) = [U32 0, InstRef 0]"
    by (simp add: div_example_def)
  with z b2(1,4) div_example_prefix show ?thesis by blast
qed

section \<open>Folding a commutative operation on two immediates, in the pass\<close>

lemma GetImmediateAsU64_imm: "GetImmediateAsU64 v = Inr x \<Longrightarrow> IsImmediate v"
  by (cases v) auto

text \<open>
  C5. The pass has come to instruction \<open>i\<close>, a commutative foldable instruction (AND, OR,
  XOR, MUL, 32- or 64-bit) whose two operands in the block the pass was given are
  immediates. Then the step at \<open>i\<close> completes and the pass goes on from the block it leaves;
  in that block every operand that referred to the instruction is one immediate: the
  operation evaluated on the operands widened to 64 bits, as a \<open>U32\<close> of the low 32 bits for
  a 32-bit opcode and as a \<open>U64\<close> for a 64-bit opcode. For a 32-bit opcode on \<open>U32\<close> operands
  this is the 32-bit operation on the operands themselves, so no bit of the 32-bit result is
  lost.
\<close>

theorem ConstantPropagation_commutative_immediates:
  assumes "i < length b"
    and "opcode (b ! i) \<in> {And32, And64, Or32, Or64, Eor32, Eor64, Mul32, Mul64}"
    and "GetArg (b ! i) 0 = Inr lhs" and "GetArg (b ! i) 1 = Inr rhs"
    and "GetImmediateAsU64 lhs = Inr x" and "GetImmediateAsU64 rhs = Inr y"
    and "FoldInsts [0 ..< i] b = Inr b1"
  shows "\<exists>b2 imm. FoldInst b1 i = Inr b2 \<and>
           ConstantPropagation b = FoldInsts [Suc i ..< length b] b2 \<and>
           length b2 = length b \<and>
           imm = (if opcode (b ! i) \<in> {And32, Or32, Eor32, Mul32}
                  then U32 (ucast (direct_eval (opcode (b ! i)) x y))
                  else U64 (direct_eval (opcode (b ! i)) x y)) \<and>
           (\<forall>j < length b. opcode (b2 ! j) = opcode (b1 ! j) \<and>
              args (b2 ! j) = map (\<lambda>a. if a = InstRef i then imm else a) (args (b1 ! j))) \<and>
           UseCount b2 i = 0 \<and>
           (\<forall>p q. lhs = U32 p \<and> rhs = U32 q \<and> opcode (b ! i) \<in> {And32, Or32, Eor32, Mul32} \<longrightarrow>
              imm = U32 (direct_eval (opcode (b ! i)) p q))"
proof -
  from FoldInsts_prefix_stable [OF assms(7)] assms(1)
  have st: "length b1 = length b" "opcode (b1 ! i) = opcode (b ! i)"
    "length (args (b1 ! i)) = length (args (b ! i))"
    "\<forall>n < length (args (b ! i)). IsImmediate (args (b ! i) ! n) \<longrightarrow>
       args (b1 ! i) ! n = args (b ! i) ! n"
    by (auto simp: stable_at_def)
  from assms(3,4) have len: "0 < length (args (b ! i))" "1 < length (args (b ! i))"
    and l: "lhs = args (b ! i) ! 0" and r: "rhs = args (b ! i) ! 1"
    by (auto simp: GetArg_eq_Inr)
  from assms(5,6) have "IsImmediate lhs" "IsImmediate rhs"
    by (auto dest: GetImmediateAsU64_imm)
  with st(3,4) len l r have g: "GetArg (b1 ! i) 0 = Inr lhs" "GetArg (b1 ! i) 1 = Inr rhs"
    by (auto simp: GetArg_eq_Inr)
  let ?imm = "if opcode (b ! i) \<in> {And32, Or32, Eor32, Mul32}
              then U32 (ucast (direct_eval (opcode (b ! i)) x y))
              else U64 (direct_eval (opcode (b ! i)) x y)"
  from FoldInst_commutative_immediates [of i b1 lhs rhs x y] assms(1,2,5,6) st(1,2) g
  obtain b2 where b2: "FoldInst b1 i = Inr b2" "length b2 = length b1"
    "\<forall>j < length b1. opcode (b2 ! j) = opcode (b1 ! j) \<and>
       args (b2 ! j) = map (\<lambda>a. if a = InstRef i then ?imm else a) (args (b1 ! j))"
    "\<forall>p q. lhs = U32 p \<and> rhs = U32 q \<and> opcode (b ! i) \<in> {And32, Or32, Eor32, Mul32} \<longrightarrow>
       ?imm = U32 (direct_eval (opcode (b ! i)) p q)"
    by auto
  have "?imm \<noteq> InstRef i" by simp
  with UseCount_subst [OF b2(2), of i ?imm] b2(3) have "UseCount b2 i = 0" by blast
  moreover from ConstantPropagation_split [OF assms(1)] assms(7) b2(1)
  have "ConstantPropagation b = FoldInsts [Suc i ..< length b] b2" by simp
  ultimately show ?thesis using b2 st(1) by auto
qed

lemma and_example_prefix: "FoldInsts [0 ..< 1] and_example = Inr and_example"
  by (simp add: and_example_def FoldInst_def)

theorem ConstantPropagation_commutative_immediates_witness:
  "FoldInsts [0 ..< 1] and_example = Inr and_example \<and>
   (\<exists>b2. FoldInst and_example 1 = Inr b2 \<and> args (b2 ! 2) = [U32 0x30, InstRef 0] \<and>
      UseCount b2 1 = 0)"
proof -
  from ConstantPropagation_commutative_immediates
    [of 1 and_example "U32 0xF0" "U32 0x3C" "0xF0" "0x3C" and_example] and_example_prefix
  obtain b2 imm where b2: "FoldInst and_example 1 = Inr b2"
    "imm = U32 (ucast (direct_eval And32 (0xF0 :: 64 word) 0x3C))"
    "\<forall>j < length and_example.
        args (b2 ! j) = map (\<lambda>a. if a = InstRef 1 then imm else a) (args (and_example ! j))"
    "UseCount b2 1 = 0"
    by (auto simp: and_example_def GetArg_def)
  from b2(2) have "imm = U32 0x30" by (simp add: direct_eval_def)
  with b2(3) have "args (b2 ! 2) = [U32 0x30, InstRef 0]"
    by (simp add: and_example_def)
  with b2(1,4) and_example_prefix show ?thesis by blast
qed

section \<open>Shifts by zero, in the pass\<close>

text \<open>
  C8. The pass has come to instruction \<open>i\<close> of a block in SSA form, a shift or rotate (LSL,
  LSR, ASR, ROR, 32- or 64-bit) whose shift amount is the immediate zero. Then the step at
  \<open>i\<close> completes and the pass goes on from the block it leaves; in that block every use of
  the instruction is its first operand; with an associated GetCarryFromOp (the instruction
  has a third operand then), every use of that pseudo-operation is the third operand; with
  three operands and no associated GetCarryFromOp, the third operand of the instruction is
  the constant false.
\<close>

theorem ConstantPropagation_shift_by_zero:
  assumes "wf_block b" and "i < length b"
    and "opcode (b ! i) \<in> {LogicalShiftLeft32, LogicalShiftLeft64, LogicalShiftRight32,
           LogicalShiftRight64, ArithmeticShiftRight32, ArithmeticShiftRight64,
           RotateRight32, RotateRight64}"
    and "1 < length (args (b ! i))"
    and "IsZero (args (b ! i) ! 1)"
    and "\<forall>c. GetAssociatedPseudoOperation (b ! i) GetCarryFromOp = Some c \<longrightarrow>
           2 < length (args (b ! i))"
    and "FoldInsts [0 ..< i] b = Inr b1"
  shows "\<exists>b2. FoldInst b1 i = Inr b2 \<and>
           ConstantPropagation b = FoldInsts [Suc i ..< length b] b2 \<and>
           length b2 = length b \<and>
           (\<forall>j < length b. opcode (b2 ! j) = opcode (b1 ! j) \<and>
              args (b2 ! j) =
                (case GetAssociatedPseudoOperation (b ! i) GetCarryFromOp of
                   Some c \<Rightarrow>
                     map (\<lambda>a. if a = InstRef i then args (b1 ! i) ! 0
                               else if a = InstRef c then args (b1 ! i) ! 2
                               else a) (args (b1 ! j))
                 | None \<Rightarrow>
                     map (\<lambda>a. if a = InstRef i then args (b1 ! i) ! 0 else a)
                       (if j = i \<and> length (args (b ! i)) = 3
                        then (args (b1 ! i))[2 := U1 False]
                        else args (b1 ! j))))"
proof -
  from FoldInsts_prefix_stable [OF assms(7)] assms(2)
  have st: "length b1 = length b" "opcode (b1 ! i) = opcode (b ! i)"
    "pseudo_ops (b1 ! i) = pseudo_ops (b ! i)"
    "length (args (b1 ! i)) = length (args (b ! i))"
    "\<forall>n < length (args (b ! i)). IsImmediate (args (b ! i) ! n) \<longrightarrow>
       args (b1 ! i) ! n = args (b ! i) ! n"
    by (auto simp: stable_at_def)
  from FoldInsts_wf [OF assms(7,1)] assms(2) have w1: "wf_block b1" by simp
  from st(1) assms(2) have i1: "i < length b1" by simp
  from assms(5) have "IsImmediate (args (b ! i) ! 1)"
    by (simp add: IsZero_def IsUnsignedImmediate_def)
  with st(5) assms(4) have a1: "args (b1 ! i) ! 1 = args (b ! i) ! 1" by simp
  from st(3) have ps: "GetAssociatedPseudoOperation (b1 ! i) GetCarryFromOp
      = GetAssociatedPseudoOperation (b ! i) GetCarryFromOp"
    by (simp add: GetAssociatedPseudoOperation_def)
  have side: "\<forall>c. GetAssociatedPseudoOperation (b1 ! i) GetCarryFromOp = Some c \<longrightarrow>
      2 < length (args (b1 ! i)) \<and> c \<noteq> i \<and>
      args (b1 ! i) ! 0 \<noteq> InstRef c \<and> args (b1 ! i) ! 2 \<noteq> InstRef i"
  proof (intro allI impI)
    fix c assume c: "GetAssociatedPseudoOperation (b1 ! i) GetCarryFromOp = Some c"
    with ps have "GetAssociatedPseudoOperation (b ! i) GetCarryFromOp = Some c" by simp
    with assms(6) have "2 < length (args (b ! i))" by blast
    with st(4) have l2: "2 < length (args (b1 ! i))" by simp
    then have l0: "0 < length (args (b1 ! i))" by (cases "args (b1 ! i)") auto
    from wf_carry_later [OF w1 i1 c] have ic: "i < c" .
    from wf_arg_older [OF w1 i1 l0] ic have "args (b1 ! i) ! 0 \<noteq> InstRef c" by auto
    moreover from wf_arg_older [OF w1 i1 l2] have "args (b1 ! i) ! 2 \<noteq> InstRef i" by auto
    ultimately show "2 < length (args (b1 ! i)) \<and> c \<noteq> i \<and>
      args (b1 ! i) ! 0 \<noteq> InstRef c \<and> args (b1 ! i) ! 2 \<noteq> InstRef i"
      using l2 ic by simp
  qed
  from FoldInst_shift_zero [OF i1 _ _ _ side] assms(3,4,5) st(2,4) a1
  obtain b2 where b2: "FoldInst b1 i = Inr b2" "length b2 = length b1"
    "\<forall>j < length b1. opcode (b2 ! j) = opcode (b1 ! j) \<and>
       args (b2 ! j) =
         (case GetAssociatedPseudoOperation (b1 ! i) GetCarryFromOp of
            Some c \<Rightarrow>
              map (\<lambda>a. if a = InstRef i then args (b1 ! i) ! 0
                        else if a = InstRef c then args (b1 ! i) ! 2
                        else a) (args (b1 ! j))
          | None \<Rightarrow>
              map (\<lambda>a. if a = InstRef i then args (b1 ! i) ! 0 else a)
                (if j = i \<and> length (args (b1 ! i)) = 3
                 then (args (b1 ! i))[2 := U1 False]
                 else args (b1 ! j)))"
    by auto
  from ConstantPropagation_split [OF assms(2)] assms(7) b2(1)
  have "ConstantPropagation b = FoldInsts [Suc i ..< length b] b2" by simp
  with b2 st(1,4) ps show ?thesis by auto
qed

lemma shift_example_wf: "wf_block shift_example"
  by (simp add: shift_example_def wf_block_def wf_inst_def enumerate_eq_zip)

lemma shift_example_prefix: "FoldInsts [0 ..< 2] shift_example = Inr shift_example"
  by (simp add: shift_example_def FoldInst_def upt_rec [of _ "numeral _"] upt_rec [of _ "Suc _"])

theorem ConstantPropagation_shift_by_zero_witness:
  "wf_block shift_example \<and> FoldInsts [0 ..< 2] shift_example = Inr shift_example \<and>
   (\<exists>b2. FoldInst shift_example 2 = Inr b2 \<and> args (b2 ! 4) = [InstRef 0, InstRef 1])"
proof -
  have z: "IsZero (args (shift_example ! 2) ! 1)"
    by (simp add: shift_example_def IsZero_def IsUnsignedImmediate_def)
  have c: "GetAssociatedPseudoOperation (shift_example ! 2) GetCarryFromOp = Some 3"
    by (simp add: shift_example_def GetAssociatedPseudoOperation_def)
  from ConstantPropagation_shift_by_zero
    [OF shift_example_wf _ _ _ z _ shift_example_prefix] c
  obtain b2 where b2: "FoldInst shift_example 2 = Inr b2"
    "\<forall>j < length shift_example.
        args (b2 ! j) = map (\<lambda>a. if a = InstRef 2 then args (shift_example ! 2) ! 0
                               else if a = InstRef 3 then args (shift_example ! 2) ! 2
                               else a) (args (shift_example ! j))"
    by (auto simp: shift_example_def)
  from b2(2) have "args (b2 ! 4) = [InstRef 0, InstRef 1]"
    by (simp add: shift_example_def)
  with b2(1) shift_example_wf shift_example_prefix show ?thesis by blast
qed

end
